theory Spec2Isabelle
  imports Main
begin

section \<open>The maze grid of \<open>js/game.js\<close>\<close>

text \<open>
  A grid is the array of rows built by \<open>generateMaze\<close>; a cell holds the number
  \<open>1\<close> (a wall), \<open>0\<close> (an open cell) or \<open>2\<close> (the exit). Reading a row past its
  end gives JavaScript's \<open>undefined\<close>, which is the fourth value of the cell type.
\<close>

datatype cell = Open | Wall | Exit | Undefined

datatype error = RangeError | TypeError

type_synonym grid = "cell list list"

type_synonym pos = "int \<times> int"

text \<open>\<open>row[x]\<close>: an index outside the row reads \<open>undefined\<close>.\<close>

definition row_get :: "cell list \<Rightarrow> int \<Rightarrow> cell" where
  "row_get row x = (if 0 \<le> x \<and> x < int (length row) then row ! nat x else Undefined)"

text \<open>
  \<open>row[x] = v\<close>: an index past the end extends the row, leaving holes that read
  \<open>undefined\<close>; a negative index stores a property beside the elements and leaves
  the elements as they are.
\<close>

definition row_set :: "cell list \<Rightarrow> int \<Rightarrow> cell \<Rightarrow> cell list" where
  "row_set row x v =
     (if x < 0 then row
      else if x < int (length row) then row[nat x := v]
      else row @ replicate (nat x - length row) Undefined @ [v])"

text \<open>\<open>grid[y][x]\<close>: a missing row is \<open>undefined\<close>, and indexing it throws.\<close>

definition read_cell :: "grid \<Rightarrow> int \<Rightarrow> int \<Rightarrow> error + cell" where
  "read_cell grid x y =
     (if 0 \<le> y \<and> y < int (length grid) then Inr (row_get (grid ! nat y) x)
      else Inl TypeError)"

definition write_cell :: "grid \<Rightarrow> int \<Rightarrow> int \<Rightarrow> cell \<Rightarrow> error + grid" where
  "write_cell grid x y v =
     (if 0 \<le> y \<and> y < int (length grid)
      then Inr (grid[nat y := row_set (grid ! nat y) x v])
      else Inl TypeError)"

text \<open>
  \<open>Array(height).fill().map(() => Array(width).fill(1))\<close>: \<open>Array(n)\<close> throws a
  RangeError for a negative length or one above \<open>2^32 - 1\<close>; with no rows the
  callback that builds a row never runs.
\<close>

definition new_grid :: "int \<Rightarrow> int \<Rightarrow> error + grid" where
  "new_grid width height =
     (if height < 0 \<or> 4294967295 < height then Inl RangeError
      else if height = 0 then Inr []
      else if width < 0 \<or> 4294967295 < width then Inl RangeError
      else Inr (replicate (nat height) (replicate (nat width) Wall)))"

text \<open>
  \<open>Math.floor(Math.random() * n)\<close>. The random source is a sequence \<open>rnd\<close> of
  naturals, of which draw number \<open>k\<close> is reduced to the range the product can
  fall in: \<open>0 .. n - 1\<close> for positive \<open>n\<close>, and \<open>n .. 0\<close> otherwise.
\<close>

definition random_floor :: "(nat \<Rightarrow> nat) \<Rightarrow> nat \<Rightarrow> int \<Rightarrow> int" where
  "random_floor rnd k n =
     (if 0 < n then int (rnd k mod nat n) else - int (rnd k mod (nat (- n) + 1)))"

definition directions :: "(int \<times> int) list" where
  "directions = [(0, -2), (2, 0), (0, 2), (-2, 0)]"

text \<open>
  The \<open>for\<close> loop over the four directions: the candidates two cells away that
  lie strictly inside the border and are still walls, in the order of the
  directions.
\<close>

fun neighbors :: "int \<Rightarrow> int \<Rightarrow> grid \<Rightarrow> int \<Rightarrow> int \<Rightarrow> (int \<times> int) list
    \<Rightarrow> error + (int \<times> int \<times> int \<times> int) list" where
  "neighbors width height grid x y [] = Inr []"
| "neighbors width height grid x y ((dx, dy) # ds) =
     (let newX = x + dx; newY = y + dy in
      if newX > 0 \<and> newX < width - 1 \<and> newY > 0 \<and> newY < height - 1 then
        (case read_cell grid newX newY of
           Inl e \<Rightarrow> Inl e
         | Inr c \<Rightarrow>
            (case neighbors width height grid x y ds of
               Inl e \<Rightarrow> Inl e
             | Inr ns \<Rightarrow> Inr (if c = Wall then (newX, newY, dx, dy) # ns else ns)))
      else neighbors width height grid x y ds)"

text \<open>
  One turn of the \<open>while\<close> loop. The stack is kept with its top first:
  \<open>cur\<close> is \<open>stack[stack.length - 1]\<close> and \<open>rest\<close> the elements below it.
\<close>

definition carve_step :: "int \<Rightarrow> int \<Rightarrow> (nat \<Rightarrow> nat) \<Rightarrow> grid \<Rightarrow> pos \<Rightarrow> pos list \<Rightarrow> nat
    \<Rightarrow> error + (grid \<times> pos list \<times> nat)" where
  "carve_step width height rnd grid cur rest k =
     (case cur of (x, y) \<Rightarrow>
      (case neighbors width height grid x y directions of
         Inl e \<Rightarrow> Inl e
       | Inr ns \<Rightarrow>
          if length ns > 0 then
            (case ns ! nat (random_floor rnd k (int (length ns))) of
               (newX, newY, dx, dy) \<Rightarrow>
                (case write_cell grid (x + dx div 2) (y + dy div 2) Open of
                   Inl e \<Rightarrow> Inl e
                 | Inr grid1 \<Rightarrow>
                    (case write_cell grid1 newX newY Open of
                       Inl e \<Rightarrow> Inl e
                     | Inr grid2 \<Rightarrow> Inr (grid2, (newX, newY) # cur # rest, k + 1))))
          else Inr (grid, rest, k)))"

definition count_walls :: "grid \<Rightarrow> nat" where
  "count_walls grid = length (filter (\<lambda>c. c = Wall) (concat grid))"

subsection \<open>The carving loop terminates\<close>

text \<open>
  Every turn of the loop either pops the stack or turns a wall into an open cell
  and pushes one position, so twice the number of walls plus the height of the
  stack decreases.
\<close>

definition row_walls :: "cell list \<Rightarrow> nat" where
  "row_walls row = length (filter (\<lambda>c. c = Wall) row)"

lemma len_filter_update:
  "i < length xs \<Longrightarrow> length (filter P (xs[i := v])) + (if P (xs ! i) then 1 else 0)
     = length (filter P xs) + (if P v then 1 else 0)"
proof (induction xs arbitrary: i)
  case Nil
  then show ?case by simp
next
  case (Cons a xs)
  show ?case
  proof (cases i)
    case 0
    then show ?thesis by simp
  next
    case (Suc j)
    with Cons.prems Cons.IH[of j] show ?thesis by simp
  qed
qed

lemma count_walls_sum: "count_walls g = sum_list (map row_walls g)"
  by (induction g) (simp_all add: count_walls_def row_walls_def)

lemma row_walls_set_le: "v \<noteq> Wall \<Longrightarrow> row_walls (row_set row x v) \<le> row_walls row"
proof (cases "0 \<le> x \<and> x < int (length row)")
  case True
  then have "nat x < length row" by linarith
  from len_filter_update[OF this, of "\<lambda>c. c = Wall" v] True show "v \<noteq> Wall \<Longrightarrow> ?thesis"
    by (auto simp: row_set_def row_walls_def split: if_splits)
next
  case False
  then show "v \<noteq> Wall \<Longrightarrow> ?thesis"
    by (auto simp: row_set_def row_walls_def)
qed

lemma row_walls_set_less:
  "v \<noteq> Wall \<Longrightarrow> row_get row x = Wall \<Longrightarrow> row_walls (row_set row x v) < row_walls row"
proof -
  assume v: "v \<noteq> Wall" and w: "row_get row x = Wall"
  then have x: "0 \<le> x" "x < int (length row)" and c: "row ! nat x = Wall"
    by (auto simp: row_get_def split: if_splits)
  then have "nat x < length row" by linarith
  from len_filter_update[OF this, of "\<lambda>c. c = Wall" v] x c v show ?thesis
    by (auto simp: row_set_def row_walls_def split: if_splits)
qed

lemma sum_list_update_nat:
  "i < length (xs::nat list) \<Longrightarrow> sum_list (xs[i := v]) + xs ! i = sum_list xs + v"
  by (induction xs arbitrary: i) (auto split: nat.splits)

lemma write_cell_walls_le:
  assumes "write_cell g x y v = Inr g'" "v \<noteq> Wall"
  shows "count_walls g' \<le> count_walls g"
proof -
  from assms(1) have y: "0 \<le> y" "nat y < length g"
    and g': "g' = g[nat y := row_set (g ! nat y) x v]"
    by (auto simp: write_cell_def split: if_splits)
  have "sum_list ((map row_walls g)[nat y := row_walls (row_set (g ! nat y) x v)])
          + map row_walls g ! nat y
      = sum_list (map row_walls g) + row_walls (row_set (g ! nat y) x v)"
    using y by (intro sum_list_update_nat) simp
  moreover have "row_walls (row_set (g ! nat y) x v) \<le> row_walls (g ! nat y)"
    using assms(2) by (rule row_walls_set_le)
  ultimately show ?thesis using y
    by (simp add: count_walls_sum g' map_update)
qed

lemma write_cell_walls_less:
  assumes "write_cell g x y v = Inr g'" "v \<noteq> Wall" "read_cell g x y = Inr Wall"
  shows "count_walls g' < count_walls g"
proof -
  from assms(1) have y: "0 \<le> y" "nat y < length g"
    and g': "g' = g[nat y := row_set (g ! nat y) x v]"
    by (auto simp: write_cell_def split: if_splits)
  have "sum_list ((map row_walls g)[nat y := row_walls (row_set (g ! nat y) x v)])
          + map row_walls g ! nat y
      = sum_list (map row_walls g) + row_walls (row_set (g ! nat y) x v)"
    using y by (intro sum_list_update_nat) simp
  moreover have "row_walls (row_set (g ! nat y) x v) < row_walls (g ! nat y)"
    using assms(2,3) y
    by (intro row_walls_set_less) (auto simp: read_cell_def split: if_splits)
  ultimately show ?thesis using y
    by (simp add: count_walls_sum g' map_update)
qed

lemma row_get_set_other: "x' \<noteq> x \<Longrightarrow> row_get (row_set row x v) x' = row_get row x'"
  by (auto simp: row_get_def row_set_def nth_append nth_list_update)

lemma row_get_set_same: "0 \<le> x \<Longrightarrow> row_get (row_set row x v) x = v"
  by (auto simp: row_get_def row_set_def nth_append)

lemma read_write_other:
  "write_cell g x y v = Inr g' \<Longrightarrow> (x', y') \<noteq> (x, y) \<Longrightarrow>
     read_cell g' x' y' = read_cell g x' y'"
  by (auto simp: read_cell_def write_cell_def nth_list_update row_get_set_other
           split: if_splits)

lemma neighbors_mem:
  "neighbors w h g x y ds = Inr ns \<Longrightarrow> (nx, ny, dx, dy) \<in> set ns \<Longrightarrow>
     (dx, dy) \<in> set ds \<and> nx = x + dx \<and> ny = y + dy \<and> 0 < nx \<and> nx < w - 1
     \<and> 0 < ny \<and> ny < h - 1 \<and> read_cell g nx ny = Inr Wall"
  by (induction ds arbitrary: ns) (auto simp: Let_def split: if_splits sum.splits)

lemma random_floor_less: "0 < n \<Longrightarrow> nat (random_floor rnd k (int n)) < n"
  by (simp add: random_floor_def)

lemma carve_step_decreases:
  assumes "carve_step w h rnd g cur rest k = Inr (g', st', k')"
  shows "2 * count_walls g' + length st' < 2 * count_walls g + length (cur # rest)"
proof -
  obtain x y where cur: "cur = (x, y)" by (cases cur)
  from assms cur obtain ns where ns: "neighbors w h g x y directions = Inr ns"
    by (auto simp: carve_step_def split: sum.splits)
  show ?thesis
  proof (cases "length ns > 0")
    case False
    with assms cur ns show ?thesis by (simp add: carve_step_def)
  next
    case True
    obtain nx ny dx dy
      where pick: "ns ! nat (random_floor rnd k (int (length ns))) = (nx, ny, dx, dy)"
      by (metis prod_cases4)
    have "(nx, ny, dx, dy) \<in> set ns"
      using random_floor_less[OF True, of rnd k] pick by (metis nth_mem)
    from neighbors_mem[OF ns this]
    have d: "(dx, dy) \<in> set directions" and n: "nx = x + dx" "ny = y + dy"
      and wall: "read_cell g nx ny = Inr Wall" by auto
    from assms cur ns True pick obtain g1 where
      g1: "write_cell g (x + dx div 2) (y + dy div 2) Open = Inr g1"
      and g2: "write_cell g1 nx ny Open = Inr g'" and st': "st' = (nx, ny) # cur # rest"
      by (auto simp: carve_step_def split: sum.splits)
    have "(nx, ny) \<noteq> (x + dx div 2, y + dy div 2)"
      using d n by (auto simp: directions_def)
    then have "read_cell g1 nx ny = Inr Wall"
      using read_write_other[OF g1] wall by simp
    then have "count_walls g' < count_walls g1"
      using write_cell_walls_less[OF g2] by simp
    moreover have "count_walls g1 \<le> count_walls g"
      using write_cell_walls_le[OF g1] by simp
    ultimately show ?thesis using st' by simp
  qed
qed

text \<open>The \<open>while (stack.length > 0)\<close> loop.\<close>

function carve :: "int \<Rightarrow> int \<Rightarrow> (nat \<Rightarrow> nat) \<Rightarrow> grid \<Rightarrow> pos list \<Rightarrow> nat
    \<Rightarrow> error + (grid \<times> nat)" where
  "carve width height rnd grid [] k = Inr (grid, k)"
| "carve width height rnd grid (cur # rest) k =
     (case carve_step width height rnd grid cur rest k of
        Inl e \<Rightarrow> Inl e
      | Inr (grid', stack', k') \<Rightarrow> carve width height rnd grid' stack' k')"
  by pat_completeness auto
termination
  by (relation "measure (\<lambda>(width, height, rnd, grid, stack, k).
        2 * count_walls grid + length stack)")
     (auto dest: carve_step_decreases)

text \<open>
  The \<open>do ... while (grid[exitY][exitX] === 1)\<close> loop that looks for the exit.
  Nothing bounds the number of its turns, so it is a partial function: \<open>None\<close>
  is the loop that never ends. It returns the exit and the number of the next
  random draw.
\<close>

partial_function (option) find_exit
  :: "int \<Rightarrow> int \<Rightarrow> (nat \<Rightarrow> nat) \<Rightarrow> grid \<Rightarrow> nat \<Rightarrow> (error + (pos \<times> nat)) option" where
  "find_exit width height rnd grid k =
     (let exitX = width - 2; exitY = random_floor rnd k (height - 2) + 1 in
      case read_cell grid exitX exitY of
        Inl e \<Rightarrow> Some (Inl e)
      | Inr c \<Rightarrow>
         if c = Wall then find_exit width height rnd grid (k + 1)
         else Some (Inr ((exitX, exitY), k + 1)))"

declare find_exit.simps [code]

section \<open>The session of \<open>js/game.js\<close>\<close>

record metrics =
  m_moves :: int
  m_timeTaken :: int
  m_decisions :: int
  m_hesitations :: int
  m_efficiency :: int
  m_confidence :: int

text \<open>
  The fields of \<open>MazeGame\<close> that the game logic reads and writes. A timestamp
  is \<open>null\<close> (\<open>None\<close>) or a number of milliseconds; \<open>exit\<close> is \<open>null\<close> until
  \<open>generateMaze\<close> has set it; \<open>path\<close> is in the order of the array, the last
  entry last.
\<close>

record game =
  maze :: grid
  player :: pos
  moves :: int
  decisions :: int
  hesitations :: int
  startTime :: "int option"
  gameActive :: bool
  lastMoveTime :: "int option"
  path :: "pos list"
  exit :: "pos option"
  metrics :: metrics

text \<open>The observations handed to \<open>trackEvent\<close>, with their payloads.\<close>

datatype event =
    Game_start int int int
  | Hesitation int
  | Move_event string pos pos
  | Invalid_move string pos
  | Game_complete int int int int nat
  | Game_reset

definition fresh_metrics :: metrics where
  "fresh_metrics = \<lparr>m_moves = 0, m_timeTaken = 0, m_decisions = 0, m_hesitations = 0,
     m_efficiency = 0, m_confidence = 100\<rparr>"

text \<open>
  \<open>generateMaze(width, height)\<close>. The result is \<open>None\<close> when the search for the
  exit never ends; otherwise the session as the call leaves it, with the grid
  and the number of the next random draw, or with the error thrown.
\<close>

definition generateMaze :: "int \<Rightarrow> int \<Rightarrow> (nat \<Rightarrow> nat) \<Rightarrow> nat \<Rightarrow> game
    \<Rightarrow> ((error + grid \<times> nat) \<times> game) option" where
  "generateMaze width height rnd k s =
     (case new_grid width height of
        Inl e \<Rightarrow> Some (Inl e, s)
      | Inr grid0 \<Rightarrow>
     (case write_cell grid0 1 1 Open of
        Inl e \<Rightarrow> Some (Inl e, s)
      | Inr grid1 \<Rightarrow>
     (case carve width height rnd grid1 [(1, 1)] k of
        Inl e \<Rightarrow> Some (Inl e, s)
      | Inr (grid2, k2) \<Rightarrow>
     (case find_exit width height rnd grid2 k2 of
        None \<Rightarrow> None
      | Some (Inl e) \<Rightarrow> Some (Inl e, s)
      | Some (Inr ((exitX, exitY), k3)) \<Rightarrow>
         (let s1 = s\<lparr>exit := Some (exitX, exitY)\<rparr> in
          case write_cell grid2 exitX exitY Exit of
            Inl e \<Rightarrow> Some (Inl e, s1)
          | Inr grid3 \<Rightarrow>
         (case write_cell grid3 1 1 Open of
            Inl e \<Rightarrow> Some (Inl e, s1)
          | Inr grid4 \<Rightarrow>
             Some (Inr (grid4, k3), s1\<lparr>player := (1, 1), path := [(1, 1)]\<rparr>)))))))"

text \<open>
  A timestamp in a condition: \<open>null\<close> and \<open>0\<close> are falsy. In arithmetic
  \<open>null\<close> counts as \<open>0\<close>.
\<close>

definition truthy :: "int option \<Rightarrow> bool" where
  "truthy t = (case t of None \<Rightarrow> False | Some v \<Rightarrow> v \<noteq> 0)"

definition js_number :: "int option \<Rightarrow> int" where
  "js_number t = (case t of None \<Rightarrow> 0 | Some v \<Rightarrow> v)"

text \<open>
  \<open>Math.round(n / d)\<close> for integers \<open>n\<close> and \<open>d > 0\<close>: the nearest integer, a
  tie going up, that is \<open>floor(n / d + 1/2)\<close>. The program computes the
  dividend and the quotient in double precision, and the exact rounding below is
  the program's only while the dividend is below \<open>2^52\<close> in absolute value:
  there the dividend is an exact double, and its quotient, when it is not a tie,
  lies at least \<open>1 / (2 d)\<close> from one, farther than the double is from the
  exact quotient. Beyond that range the program's result can differ, and what is
  proved of the scores is stated inside it.
\<close>

definition js_round_div :: "int \<Rightarrow> int \<Rightarrow> int" where
  "js_round_div n d = (2 * n + d) div (2 * d)"

text \<open>
  The operations take the reading \<open>now\<close> of \<open>Date.now()\<close> as an argument, one
  reading for one call, and return what they threw or returned, the observations
  they tracked, and the session as they leave it. Drawing and the page are left
  out: they read the session and never write it.
\<close>

definition startGame :: "int \<Rightarrow> game \<Rightarrow> (error + unit) \<times> event list \<times> game" where
  "startGame now s =
     (if \<not> gameActive s then
        (let s1 = s\<lparr>startTime := Some now, gameActive := True, lastMoveTime := Some now\<rparr> in
         case maze s1 of
           [] \<Rightarrow> (Inl TypeError, [], s1)
         | row0 # _ \<Rightarrow>
            (Inr (), [Game_start now (int (length row0)) (int (length (maze s1)))], s1))
      else (Inr (), [], s))"

definition isValidMove :: "game \<Rightarrow> int \<Rightarrow> int \<Rightarrow> error + bool" where
  "isValidMove s x y =
     (if \<not> x \<ge> 0 then Inr False
      else case maze s of
        [] \<Rightarrow> Inl TypeError
      | row0 # _ \<Rightarrow>
         if \<not> x < int (length row0) then Inr False
         else if \<not> (y \<ge> 0 \<and> y < int (length (maze s))) then Inr False
         else Inr (row_get (maze s ! nat y) x \<noteq> Wall))"

definition isHesitating :: "int \<Rightarrow> game \<Rightarrow> bool \<times> game" where
  "isHesitating now s =
     (if \<not> truthy (lastMoveTime s) then (False, s)
      else (let timeSinceLastMove = now - js_number (lastMoveTime s) in
            (timeSinceLastMove > 2000 \<and> gameActive s, s)))"

text \<open>
  \<open>completeGame\<close>, whose body runs to its end when it is called. The
  efficiency is rounded by \<open>js_round_div\<close>, the program's rounding within the
  range given there.
\<close>

definition completeGame :: "int \<Rightarrow> game \<Rightarrow> event list \<times> game" where
  "completeGame now s =
     (if \<not> gameActive s then ([], s)
      else
        (let endTime = now;
             timeTaken = (endTime - js_number (startTime s)) div 1000;
             m = (metrics s)\<lparr>
                   m_moves := moves s,
                   m_timeTaken := timeTaken,
                   m_decisions := decisions s,
                   m_efficiency := min 100 (js_round_div ((100 - moves s) * 100) 150),
                   m_confidence := max 0 (100 - hesitations s * 5)\<rparr>
         in ([Game_complete (moves s) timeTaken (decisions s) (hesitations s)
                (length (path s))],
             s\<lparr>gameActive := False, metrics := m\<rparr>)))"

text \<open>The hesitation check in front of an accepted move.\<close>

definition track_hesitation :: "int \<Rightarrow> game \<Rightarrow> event list \<times> game" where
  "track_hesitation now s =
     (if truthy (lastMoveTime s) then
        (let hesitationTime = now - js_number (lastMoveTime s) in
         if hesitationTime > 1000 then
           ([Hesitation hesitationTime],
            s\<lparr>hesitations := hesitations s + 1,
              metrics := (metrics s)\<lparr>m_hesitations := m_hesitations (metrics s) + 1\<rparr>\<rparr>)
         else ([], s))
      else ([], s))"

text \<open>The branch of \<open>move\<close> for a valid target \<open>(newX, newY)\<close>.\<close>

definition accept_move :: "string \<Rightarrow> int \<Rightarrow> int \<Rightarrow> int \<Rightarrow> int \<Rightarrow> int \<Rightarrow> game
    \<Rightarrow> (error + unit) \<times> event list \<times> game" where
  "accept_move direction dx dy newX newY now s =
     (case track_hesitation now s of (ev1, s1) \<Rightarrow>
      (let s2 = s1\<lparr>player := (newX, newY), moves := moves s1 + 1,
                  decisions := decisions s1 + 1, lastMoveTime := Some now\<rparr>;
           s3 = (if path s2 = [] \<or> last (path s2) \<noteq> (newX, newY)
                 then s2\<lparr>path := path s2 @ [(newX, newY)]\<rparr> else s2);
           ev2 = [Move_event direction
                    (fst (player s3) - dx, snd (player s3) - dy) (newX, newY)]
       in case exit s3 of
            None \<Rightarrow> (Inl TypeError, ev1 @ ev2, s3)
          | Some (exitX, exitY) \<Rightarrow>
             if newX = exitX \<and> newY = exitY then
               (case completeGame now s3 of (ev3, s4) \<Rightarrow> (Inr (), ev1 @ ev2 @ ev3, s4))
             else (Inr (), ev1 @ ev2, s3)))"

definition move :: "string \<Rightarrow> int \<Rightarrow> game \<Rightarrow> (error + unit) \<times> event list \<times> game" where
  "move direction now s0 =
     (case (if \<not> gameActive s0 then startGame now s0 else (Inr (), [], s0)) of
        (Inl e, ev0, s) \<Rightarrow> (Inl e, ev0, s)
      | (Inr _, ev0, s) \<Rightarrow>
         (let dx = (if direction = ''left'' then - 1 else if direction = ''right'' then 1 else 0);
              dy = (if direction = ''up'' then - 1 else if direction = ''down'' then 1 else 0);
              newX = fst (player s) + dx;
              newY = snd (player s) + dy
          in case isValidMove s newX newY of
               Inl e \<Rightarrow> (Inl e, ev0, s)
             | Inr True \<Rightarrow>
                (case accept_move direction dx dy newX newY now s of
                   (r, ev, s') \<Rightarrow> (r, ev0 @ ev, s'))
             | Inr False \<Rightarrow> (Inr (), ev0 @ [Invalid_move direction (newX, newY)], s)))"

text \<open>
  The constructor, up to the maze: the fields as initialised, then
  \<open>this.maze = this.generateMaze(15, 15)\<close>. A constructor that throws leaves no
  session behind.
\<close>

definition blank_game :: game where
  "blank_game = \<lparr>maze = [], player = (1, 1), moves = 0, decisions = 0, hesitations = 0,
     startTime = None, gameActive = False, lastMoveTime = None, path = [], exit = None,
     metrics = fresh_metrics\<rparr>"

definition new_game :: "(nat \<Rightarrow> nat) \<Rightarrow> nat \<Rightarrow> (error + game \<times> nat) option" where
  "new_game rnd k =
     (case generateMaze 15 15 rnd k blank_game of
        None \<Rightarrow> None
      | Some (Inl e, s) \<Rightarrow> Some (Inl e)
      | Some (Inr (grid, k'), s) \<Rightarrow> Some (Inr (s\<lparr>maze := grid\<rparr>, k')))"

definition reset :: "(nat \<Rightarrow> nat) \<Rightarrow> nat \<Rightarrow> game
    \<Rightarrow> ((error + nat) \<times> event list \<times> game) option" where
  "reset rnd k s =
     (case generateMaze 15 15 rnd k s of
        None \<Rightarrow> None
      | Some (Inl e, s1) \<Rightarrow> Some (Inl e, [], s1)
      | Some (Inr (grid, k'), s1) \<Rightarrow>
         Some (Inr k', [Game_reset],
           s1\<lparr>maze := grid, player := (1, 1), path := [(1, 1)], moves := 0, decisions := 0,
              hesitations := 0, startTime := None, gameActive := False,
              lastMoveTime := None, metrics := fresh_metrics\<rparr>))"

text \<open>
  The sessions a page can hold: the one the constructor returns, and any that
  \<open>move\<close>, \<open>startGame\<close> (the key and touch handlers call it) and \<open>reset\<close> leave
  behind, whether they returned or threw.
\<close>

inductive reachable :: "game \<Rightarrow> bool" where
  reach_new: "new_game rnd k = Some (Inr (s, k')) \<Longrightarrow> reachable s"
| reach_move: "reachable s \<Longrightarrow> move direction now s = (r, ev, s') \<Longrightarrow> reachable s'"
| reach_start: "reachable s \<Longrightarrow> startGame now s = (r, ev, s') \<Longrightarrow> reachable s'"
| reach_reset: "reachable s \<Longrightarrow> reset rnd k s = Some (r, ev, s') \<Longrightarrow> reachable s'"

section \<open>The analysis of \<open>backend/server.js\<close>\<close>

datatype http_error = Bad_request

record profile =
  archetype :: string
  archetypeName :: string
  moveEfficiency :: int
  timeEfficiency :: int
  decisionConfidence :: int
  overallScore :: int
  biases :: "string list"

definition getArchetypeName :: "string \<Rightarrow> string" where
  "getArchetypeName t =
     (if t = ''strategist'' then ''The Strategist''
      else if t = ''explorer'' then ''The Explorer''
      else if t = ''intuitive'' then ''The Intuitive''
      else if t = ''analytical'' then ''The Analytical''
      else if t = ''balanced'' then ''The Balanced Thinker''
      else ''The Thinker'')"

text \<open>
  The handler of \<open>POST /api/analyze/game\<close> on a body whose \<open>moves\<close>,
  \<open>timeTaken\<close>, \<open>decisions\<close> and \<open>hesitations\<close> are integers: the scores, the
  archetype and the biases of the profile it answers with. An empty session
  identifier is answered with status 400. The scores are rounded by
  \<open>js_round_div\<close>, which is the program's rounding within the range given
  there.
\<close>

definition analyze_game :: "string \<Rightarrow> int \<Rightarrow> int \<Rightarrow> int \<Rightarrow> int \<Rightarrow> http_error + profile" where
  "analyze_game sessionId mvs timeTaken decs hes =
     (if sessionId = [] then Inl Bad_request
      else
        (let moveEff = min 100 (js_round_div ((100 - mvs) * 100) 150);
             timeEff = min 100 (js_round_div ((300 - timeTaken) * 100) 300);
             conf = min 100 (100 - hes);
             arch =
               (if moveEff > 80 \<and> timeEff > 80 then ''strategist''
                else if moveEff < 60 \<and> decs > 30 then ''explorer''
                else if timeEff > 90 then ''intuitive''
                else if conf < 70 then ''analytical''
                else ''balanced'');
             bs = (if mvs > 50 then [''analysis_paralysis''] else [])
                @ (if hes > 10 then [''decision_anxiety''] else [])
                @ (if timeTaken < 30 \<and> mvs > 40 then [''impulsivity''] else [])
         in Inr \<lparr>archetype = arch, archetypeName = getArchetypeName arch,
                 moveEfficiency = moveEff, timeEfficiency = timeEff,
                 decisionConfidence = conf,
                 overallScore = js_round_div (moveEff + timeEff + conf) 3,
                 biases = bs\<rparr>))"

section \<open>Scenarios and the specification's formulas\<close>

text \<open>A random source whose every draw is \<open>0\<close>, and the session it gives.\<close>

definition rnd_zero :: "nat \<Rightarrow> nat" where
  "rnd_zero k = 0"

definition demo_game :: game where
  "demo_game = (case new_game rnd_zero 0 of Some (Inr (s, k)) \<Rightarrow> s | _ \<Rightarrow> blank_game)"

text \<open>A sequence of calls of \<open>move\<close>, each with its clock reading.\<close>

fun play :: "(string \<times> int) list \<Rightarrow> game \<Rightarrow> game" where
  "play [] s = s"
| "play ((direction, now) # ms) s = play ms (snd (snd (move direction now s)))"

definition twelve_rights :: "(string \<times> int) list" where
  "twelve_rights = map (\<lambda>i. (''right'', 1000 * i)) [1..12]"

definition demo_complete :: game where
  "demo_complete = play twelve_rights demo_game"

text \<open>The scores as the specification writes them, clamped on both sides.\<close>

definition clamp :: "int \<Rightarrow> int \<Rightarrow> int \<Rightarrow> int" where
  "clamp lo hi v = max lo (min hi v)"

definition spec_efficiency :: "int \<Rightarrow> int" where
  "spec_efficiency mvs = clamp 0 100 (js_round_div ((100 - mvs) * 100) 150)"

definition spec_confidence :: "int \<Rightarrow> int" where
  "spec_confidence hes = clamp 0 100 (100 - hes * 5)"

text \<open>
  The cell a direction aims at, and what makes \<open>move\<close> reject it: it lies
  outside the grid, or it is a wall.
\<close>

definition target :: "string \<Rightarrow> game \<Rightarrow> pos" where
  "target direction s =
     (fst (player s) + (if direction = ''left'' then - 1 else if direction = ''right'' then 1 else 0),
      snd (player s) + (if direction = ''up'' then - 1 else if direction = ''down'' then 1 else 0))"

definition blocked :: "game \<Rightarrow> pos \<Rightarrow> bool" where
  "blocked s p =
     (case p of (x, y) \<Rightarrow>
        x < 0 \<or> int (length (hd (maze s))) \<le> x \<or> y < 0 \<or> int (length (maze s)) \<le> y
        \<or> row_get (maze s ! nat y) x = Wall)"

text \<open>The session as \<open>startGame\<close> leaves it, and the Complete state.\<close>

definition started :: "int \<Rightarrow> game \<Rightarrow> game" where
  "started now s = s\<lparr>startTime := Some now, gameActive := True, lastMoveTime := Some now\<rparr>"

definition complete :: "game \<Rightarrow> bool" where
  "complete s = (\<not> gameActive s \<and> exit s = Some (player s))"


text \<open>What holds of the path and the counters of every session.\<close>

definition session_inv :: "game \<Rightarrow> bool" where
  "session_inv s = (path s \<noteq> [] \<and> last (path s) = player s \<and> moves s = decisions s)"

section \<open>The shape of a maze\<close>

text \<open>
  Two cells are adjacent when they are next to each other in one of the four
  directions; a room is a cell with both coordinates odd, where the carving
  stops.
\<close>

definition adjacent :: "pos \<Rightarrow> pos \<Rightarrow> bool" where
  "adjacent p q =
     ((fst q = fst p \<and> (snd q = snd p + 1 \<or> snd q = snd p - 1))
      \<or> (snd q = snd p \<and> (fst q = fst p + 1 \<or> fst q = fst p - 1)))"

definition room :: "pos \<Rightarrow> bool" where
  "room p = (odd (fst p) \<and> odd (snd p))"

text \<open>The cells that a walk from the start cell \<open>(1, 1)\<close> through the given cells reaches.\<close>

inductive_set region :: "pos set \<Rightarrow> pos set" for cells :: "pos set" where
  region_start: "(1, 1) \<in> cells \<Longrightarrow> (1, 1) \<in> region cells"
| region_step: "p \<in> region cells \<Longrightarrow> q \<in> cells \<Longrightarrow> adjacent p q \<Longrightarrow> q \<in> region cells"

text \<open>
  The pairs of adjacent cells of a set: \<open>links\<close> has each pair in both orders,
  \<open>edges\<close> has it once, from the left or upper cell to the right or lower one.
\<close>

definition links :: "pos set \<Rightarrow> (pos \<times> pos) set" where
  "links cells = {(p, q). p \<in> cells \<and> q \<in> cells \<and> adjacent p q}"

definition edges :: "pos set \<Rightarrow> (pos \<times> pos) set" where
  "edges cells = {(p, q). p \<in> cells \<and> q \<in> cells
      \<and> (q = (fst p + 1, snd p) \<or> q = (fst p, snd p + 1))}"

text \<open>
  What the carving keeps true of the set of open cells: the start is open, every
  open cell lies strictly inside the border and not on an even-even position,
  every room beside an open cell is open, every open cell is reached from the
  start, and the adjacent pairs number one less than the cells.
\<close>

definition tree_inv :: "int \<Rightarrow> int \<Rightarrow> pos set \<Rightarrow> bool" where
  "tree_inv w h cells =
     ((1, 1) \<in> cells
      \<and> (\<forall>p \<in> cells. 0 < fst p \<and> fst p < w - 1 \<and> 0 < snd p \<and> snd p < h - 1
            \<and> (odd (fst p) \<or> odd (snd p)))
      \<and> (\<forall>p \<in> cells. \<forall>r. adjacent p r \<longrightarrow> room r \<longrightarrow> r \<in> cells)
      \<and> cells \<subseteq> region cells
      \<and> card (links cells) + 2 = 2 * card cells)"

text \<open>The cells of a grid that are not walls: they hold \<open>0\<close> or the exit mark \<open>2\<close>.\<close>

definition is_open :: "grid \<Rightarrow> pos \<Rightarrow> bool" where
  "is_open g p = (read_cell g (fst p) (snd p) = Inr Open \<or> read_cell g (fst p) (snd p) = Inr Exit)"

definition open_cells :: "grid \<Rightarrow> pos set" where
  "open_cells g = {p. is_open g p}"

text \<open>A grid of the given size while it is carved: every cell is a wall or open.\<close>

definition grid_ok :: "int \<Rightarrow> int \<Rightarrow> grid \<Rightarrow> bool" where
  "grid_ok w h g = (int (length g) = h
     \<and> (\<forall>row \<in> set g. int (length row) = w \<and> set row \<subseteq> {Wall, Open}))"

definition carve_inv :: "int \<Rightarrow> int \<Rightarrow> grid \<Rightarrow> pos list \<Rightarrow> bool" where
  "carve_inv w h g stack = (grid_ok w h g \<and> tree_inv w h (open_cells g)
     \<and> (\<forall>c \<in> set stack. c \<in> open_cells g \<and> room c))"

text \<open>
  What a result of the search for the exit says: the exit is in column
  \<open>width - 2\<close>, in the row of the last draw, on a cell that is not a wall.
\<close>

definition exit_found :: "int \<Rightarrow> int \<Rightarrow> (nat \<Rightarrow> nat) \<Rightarrow> grid \<Rightarrow> nat \<Rightarrow> error + (pos \<times> nat) \<Rightarrow> bool" where
  "exit_found w h rnd g k r =
     (case r of
        Inl e \<Rightarrow>
          (\<exists>j\<ge>k. read_cell g (w - 2) (random_floor rnd j (h - 2) + 1) = Inl e)
      | Inr (e, k') \<Rightarrow> fst e = w - 2 \<and> k < k'
          \<and> snd e = random_floor rnd (k' - 1) (h - 2) + 1
          \<and> (\<exists>c. read_cell g (fst e) (snd e) = Inr c \<and> c \<noteq> Wall))"

text \<open>
  A random source that carves a 7 by 7 maze whose cell \<open>(5, 2)\<close> stays a wall
  and then draws row \<open>2\<close> for ever.
\<close>

definition rnd_stuck :: "nat \<Rightarrow> nat" where
  "rnd_stuck k = (if k = 2 \<or> k = 4 \<or> k = 6 \<or> k = 7 then 0 else 1)"

text \<open>\<open>generateMaze\<close> up to the end of the carving loop.\<close>

definition carved :: "int \<Rightarrow> int \<Rightarrow> (nat \<Rightarrow> nat) \<Rightarrow> nat \<Rightarrow> error + (grid \<times> nat)" where
  "carved w h rnd k =
     (case new_grid w h of
        Inl e \<Rightarrow> Inl e
      | Inr g0 \<Rightarrow>
         (case write_cell g0 1 1 Open of
            Inl e \<Rightarrow> Inl e
          | Inr g1 \<Rightarrow> carve w h rnd g1 [(1, 1)] k))"

text \<open>
  A cell strictly inside the border, and what the carving keeps true of the
  rooms it has left: every open room that is no longer on the stack has all its
  inner neighbouring rooms open.
\<close>

definition inside :: "int \<Rightarrow> int \<Rightarrow> pos \<Rightarrow> bool" where
  "inside w h p = (0 < fst p \<and> fst p < w - 1 \<and> 0 < snd p \<and> snd p < h - 1)"

definition explored :: "int \<Rightarrow> int \<Rightarrow> grid \<Rightarrow> pos list \<Rightarrow> bool" where
  "explored w h g stack =
     (\<forall>c \<in> open_cells g. room c \<longrightarrow> c \<notin> set stack \<longrightarrow>
        (\<forall>d \<in> set directions.
           inside w h (fst c + fst d, snd c + snd d) \<longrightarrow>
             (fst c + fst d, snd c + snd d) \<in> open_cells g))"

section \<open>The scores\<close>

lemma round_eff_le: "0 \<le> mvs \<Longrightarrow> js_round_div ((100 - mvs) * 100) 150 \<le> 67"
proof -
  assume "0 \<le> mvs"
  then have "(2 * ((100 - mvs) * 100) + 150) div 300 \<le> 20150 div (300::int)"
    by (intro zdiv_mono1) simp_all
  then show ?thesis by (simp add: js_round_div_def)
qed

lemma round_eff_nonneg: "mvs \<le> 100 \<Longrightarrow> 0 \<le> js_round_div ((100 - mvs) * 100) 150"
  by (simp add: js_round_div_def pos_imp_zdiv_nonneg_iff)

lemma round_eff_neg: "100 < mvs \<Longrightarrow> js_round_div ((100 - mvs) * 100) 150 < 0"
  by (simp add: js_round_div_def pos_imp_zdiv_neg_iff)

text \<open>
  C4, as stated, fails: at 150 moves both the server and the session compute an
  efficiency of \<open>-33\<close>, where the clamped formula gives \<open>0\<close>.
\<close>

theorem efficiency_counterexample:
  "map_sum id moveEfficiency (analyze_game ''s1'' 150 60 150 0) = Inr (- 33)
   \<and> m_efficiency (metrics (snd (completeGame 60000
        (demo_game\<lparr>moves := 150, gameActive := True, startTime := Some 1\<rparr>)))) = - 33
   \<and> spec_efficiency 150 = 0"
  by (simp add: analyze_game_def completeGame_def js_round_div_def Let_def
        spec_efficiency_def clamp_def)

text \<open>
  C4, amended: for every number of moves from 0 to \<open>10^13\<close>, where the double
  arithmetic of the program rounds as the exact one, the efficiency of the
  server and of the session is \<open>min(100, round((100 - moves) * 100 / 150))\<close>,
  with the upper bound alone. Up to 100 moves that is the value clamped to
  \<open>[0, 100]\<close>; above 100 moves it is negative.
\<close>

theorem efficiency_upper_clamp_only:
  assumes "0 \<le> mvs" and "mvs \<le> 10000000000000"
    and "sessionId \<noteq> []" and "gameActive s" and "moves s = mvs"
  shows "map_sum id moveEfficiency (analyze_game sessionId mvs t d h)
           = Inr (min 100 (js_round_div ((100 - mvs) * 100) 150))
       \<and> m_efficiency (metrics (snd (completeGame now s)))
           = min 100 (js_round_div ((100 - mvs) * 100) 150)
       \<and> (mvs \<le> 100 \<longrightarrow>
            min 100 (js_round_div ((100 - mvs) * 100) 150) = spec_efficiency mvs)
       \<and> (100 < mvs \<longrightarrow> min 100 (js_round_div ((100 - mvs) * 100) 150) < 0)"
  using assms round_eff_le[of mvs] round_eff_nonneg[of mvs] round_eff_neg[of mvs]
  by (auto simp: analyze_game_def completeGame_def Let_def spec_efficiency_def clamp_def)

theorem efficiency_upper_clamp_only_witness:
  "(0::int) \<le> 20 \<and> (20::int) \<le> 10000000000000 \<and> ''s1'' \<noteq> []
   \<and> gameActive (demo_game\<lparr>moves := 20, gameActive := True\<rparr>)
   \<and> moves (demo_game\<lparr>moves := 20, gameActive := True\<rparr>) = 20
   \<and> map_sum id moveEfficiency (analyze_game ''s1'' 20 45 20 1) = Inr 53
   \<and> m_efficiency (metrics (snd (completeGame 45000
        (demo_game\<lparr>moves := 20, gameActive := True\<rparr>)))) = 53
   \<and> spec_efficiency 20 = 53"
  using efficiency_upper_clamp_only
    [of 20 "''s1''" "demo_game\<lparr>moves := 20, gameActive := True\<rparr>" 45 20 1 45000]
  by (simp add: js_round_div_def)

text \<open>
  The session's own confidence, computed in \<open>completeGame\<close>, is the formula of
  the specification: five points for each hesitation, never below \<open>0\<close>.
\<close>

lemma session_confidence:
  "gameActive s \<Longrightarrow> 0 \<le> hesitations s \<Longrightarrow>
     m_confidence (metrics (snd (completeGame now s))) = spec_confidence (hesitations s)"
  by (simp add: completeGame_def Let_def spec_confidence_def clamp_def)

text \<open>
  C5: the server's analysis takes one point for each hesitation, not five. At 25
  hesitations it answers a confidence of \<open>75\<close>, where the formula, and the
  session's \<open>completeGame\<close>, give \<open>0\<close>.
\<close>

theorem server_confidence_at_25:
  "map_sum id decisionConfidence (analyze_game ''s1'' 30 60 30 25) = Inr 75
   \<and> spec_confidence 25 = 0
   \<and> m_confidence (metrics (snd (completeGame 60000
        (demo_game\<lparr>hesitations := 25, gameActive := True\<rparr>)))) = 0"
  by (simp add: analyze_game_def completeGame_def js_round_div_def Let_def
        spec_confidence_def clamp_def)

text \<open>
  C6: on 20 moves, 45 seconds, 1 hesitation and 20 decisions the server's analysis
  answers efficiency 53, time efficiency 85, the balanced archetype and no bias,
  but a confidence of \<open>99\<close> and an overall score of \<open>79\<close>.
\<close>

theorem server_profile_20_45_1_20:
  "analyze_game ''s1'' 20 45 20 1 =
     Inr \<lparr>archetype = ''balanced'', archetypeName = ''The Balanced Thinker'',
          moveEfficiency = 53, timeEfficiency = 85, decisionConfidence = 99,
          overallScore = 79, biases = []\<rparr>"
  by (simp add: analyze_game_def js_round_div_def getArchetypeName_def Let_def)

section \<open>The session invariant\<close>

lemma generateMaze_frame:
  assumes "generateMaze w h rnd k s = Some (r, s')"
  shows "moves s' = moves s \<and> decisions s' = decisions s
       \<and> (case r of Inl e \<Rightarrow> player s' = player s \<and> path s' = path s
                   | Inr g \<Rightarrow> player s' = (1, 1) \<and> path s' = [(1, 1)])"
  using assms
  by (auto simp: generateMaze_def Let_def split: sum.splits option.splits prod.splits)

lemma startGame_frame:
  "startGame now s = (r, ev, s') \<Longrightarrow>
     player s' = player s \<and> path s' = path s \<and> moves s' = moves s
     \<and> decisions s' = decisions s \<and> maze s' = maze s \<and> exit s' = exit s
     \<and> hesitations s' = hesitations s"
  by (auto simp: startGame_def Let_def split: if_splits list.splits)

lemma track_hesitation_frame:
  "track_hesitation now s = (ev, s') \<Longrightarrow>
     player s' = player s \<and> path s' = path s \<and> moves s' = moves s
     \<and> decisions s' = decisions s \<and> maze s' = maze s \<and> exit s' = exit s
     \<and> gameActive s' = gameActive s \<and> startTime s' = startTime s"
  by (auto simp: track_hesitation_def Let_def split: if_splits)

lemma completeGame_frame:
  "completeGame now s = (ev, s') \<Longrightarrow>
     player s' = player s \<and> path s' = path s \<and> moves s' = moves s
     \<and> decisions s' = decisions s \<and> maze s' = maze s \<and> exit s' = exit s
     \<and> hesitations s' = hesitations s"
  by (auto simp: completeGame_def Let_def split: if_splits)

lemma accept_move_result:
  assumes "accept_move direction dx dy newX newY now s = (r, ev, s')"
  shows "player s' = (newX, newY) \<and> moves s' = moves s + 1 \<and> decisions s' = decisions s + 1
       \<and> path s' = (if path s = [] \<or> last (path s) \<noteq> (newX, newY)
                     then path s @ [(newX, newY)] else path s)
       \<and> maze s' = maze s \<and> exit s' = exit s"
proof -
  obtain ev1 s1 where th: "track_hesitation now s = (ev1, s1)" by (cases "track_hesitation now s")
  note f = track_hesitation_frame[OF th]
  show ?thesis
  proof (cases "exit s")
    case None
    with assms th f show ?thesis
      by (auto simp: accept_move_def Let_def)
  next
    case (Some e)
    obtain ex ey where e: "e = (ex, ey)" by (cases e)
    let ?s2 = "s1\<lparr>player := (newX, newY), moves := moves s1 + 1,
                  decisions := decisions s1 + 1, lastMoveTime := Some now\<rparr>"
    let ?s3 = "(if path ?s2 = [] \<or> last (path ?s2) \<noteq> (newX, newY)
                 then ?s2\<lparr>path := path ?s2 @ [(newX, newY)]\<rparr> else ?s2)"
    obtain ev3 s4 where cg: "completeGame now ?s3 = (ev3, s4)" by (cases "completeGame now ?s3")
    note c = completeGame_frame[OF cg]
    from assms th f Some e cg c show ?thesis
      by (auto simp: accept_move_def Let_def split: if_splits)
  qed
qed

lemma accept_move_inv:
  assumes "accept_move direction dx dy newX newY now s = (r, ev, s')" "moves s = decisions s"
  shows "session_inv s'"
  using accept_move_result[OF assms(1)] assms(2)
  by (auto simp: session_inv_def)

lemma move_inv:
  assumes "move direction now s = (r, ev, s')" "session_inv s"
  shows "session_inv s'"
proof -
  obtain r0 ev0 s0 where st: "(if \<not> gameActive s then startGame now s else (Inr (), [], s)) = (r0, ev0, s0)"
    by (metis prod_cases3)
  then have f: "player s0 = player s \<and> path s0 = path s \<and> moves s0 = moves s
     \<and> decisions s0 = decisions s"
    using startGame_frame[of now s r0 ev0 s0] by (auto split: if_splits)
  then have i0: "session_inv s0" using assms(2) by (simp add: session_inv_def)
  show ?thesis
  proof (cases r0)
    case (Inl e)
    with assms(1) st i0 show ?thesis by (simp add: move_def)
  next
    case (Inr u)
    let ?dx = "(if direction = ''left'' then - 1 else if direction = ''right'' then 1 else (0::int))"
    let ?dy = "(if direction = ''up'' then - 1 else if direction = ''down'' then 1 else (0::int))"
    let ?x = "fst (player s0) + ?dx" and ?y = "snd (player s0) + ?dy"
    show ?thesis
    proof (cases "isValidMove s0 ?x ?y")
      case (Inl e)
      with assms(1) st Inr i0 show ?thesis by (simp add: move_def Let_def)
    next
      case v: (Inr b)
      show ?thesis
      proof (cases b)
        case False
        with assms(1) st Inr v i0 show ?thesis by (simp add: move_def Let_def)
      next
        case True
        obtain r1 ev1 s1 where am: "accept_move direction ?dx ?dy ?x ?y now s0 = (r1, ev1, s1)"
          by (metis prod_cases3)
        from accept_move_inv[OF am] i0 have "session_inv s1" by (simp add: session_inv_def)
        moreover from assms(1) st Inr v True am have "s' = s1" by (simp add: move_def Let_def)
        ultimately show ?thesis by simp
      qed
    qed
  qed
qed

lemma new_game_inv: "new_game rnd k = Some (Inr (s, k')) \<Longrightarrow> session_inv s"
proof -
  assume a: "new_game rnd k = Some (Inr (s, k'))"
  then obtain g s1 where g: "generateMaze 15 15 rnd k blank_game = Some (Inr (g, k'), s1)"
    and s: "s = s1\<lparr>maze := g\<rparr>"
    by (auto simp: new_game_def split: option.splits sum.splits prod.splits)
  from generateMaze_frame[OF g] s show ?thesis
    by (simp add: session_inv_def blank_game_def)
qed

lemma reset_inv:
  assumes "reset rnd k s = Some (r, ev, s')" "session_inv s"
  shows "session_inv s'"
proof -
  from assms(1) obtain r1 s1 where g: "generateMaze 15 15 rnd k s = Some (r1, s1)"
    by (auto simp: reset_def split: option.splits)
  from generateMaze_frame[OF g] assms show ?thesis
    by (cases r1) (auto simp: reset_def g session_inv_def split: prod.splits)
qed

text \<open>
  C10: in every reachable session, after the constructor, after any sequence of
  calls of \<open>move\<close> and \<open>startGame\<close> and after \<open>reset\<close>, the path is not
  empty, its last entry is the position of the player, and the moves counter
  equals the decisions counter.
\<close>

theorem reachable_path_ends_at_player:
  "reachable s \<Longrightarrow> path s \<noteq> [] \<and> last (path s) = player s \<and> moves s = decisions s"
proof -
  assume "reachable s"
  then have "session_inv s"
  proof (induction rule: reachable.induct)
    case (reach_new rnd k s k')
    then show ?case by (rule new_game_inv)
  next
    case (reach_move s direction now r ev s')
    then show ?case using move_inv by blast
  next
    case (reach_start s now r ev s')
    then show ?case using startGame_frame[of now s r ev s'] by (simp add: session_inv_def)
  next
    case (reach_reset s rnd k r ev s')
    then show ?case using reset_inv by blast
  qed
  then show ?thesis by (simp add: session_inv_def)
qed


lemma demo_game_new: "new_game rnd_zero 0 = Some (Inr (demo_game, 49))"
proof -
  have "(case new_game rnd_zero 0 of Some (Inr (s, k)) \<Rightarrow> k = 49 | _ \<Rightarrow> False)" by code_simp
  then show ?thesis
    by (auto simp: demo_game_def split: option.splits sum.splits prod.splits)
qed

lemma demo_game_reachable: "reachable demo_game"
  using demo_game_new by (rule reach_new)

theorem reachable_path_ends_at_player_witness:
  "reachable (snd (snd (move ''right'' 1000 demo_game)))
   \<and> path (snd (snd (move ''right'' 1000 demo_game))) = [(1, 1), (2, 1)]
   \<and> player (snd (snd (move ''right'' 1000 demo_game))) = (2, 1)
   \<and> moves (snd (snd (move ''right'' 1000 demo_game))) = 1
   \<and> decisions (snd (snd (move ''right'' 1000 demo_game))) = 1"
proof -
  let ?s = "snd (snd (move ''right'' 1000 demo_game))"
  have "move ''right'' 1000 demo_game
          = (fst (move ''right'' 1000 demo_game), fst (snd (move ''right'' 1000 demo_game)), ?s)"
    by simp
  with demo_game_reachable have r: "reachable ?s" by (rule reach_move)
  have p: "path ?s = [(1, 1), (2, 1)]" by code_simp
  have m: "moves ?s = 1" by code_simp
  from reachable_path_ends_at_player[OF r] r p m show ?thesis by simp
qed

section \<open>The hesitation query\<close>

text \<open>
  C9, as stated, fails where the last move timestamp is the number \<open>0\<close>, which
  the query takes for no timestamp: after one move at clock reading \<open>0\<close> the
  session is active and at reading 5000 more than 2000 ms have passed, yet the
  query answers false.
\<close>

theorem isHesitating_counterexample:
  "reachable (snd (snd (move ''right'' 0 demo_game)))
   \<and> gameActive (snd (snd (move ''right'' 0 demo_game)))
   \<and> lastMoveTime (snd (snd (move ''right'' 0 demo_game))) = Some 0
   \<and> (2000::int) < 5000 - 0
   \<and> fst (isHesitating 5000 (snd (snd (move ''right'' 0 demo_game)))) = False"
proof -
  let ?s = "snd (snd (move ''right'' 0 demo_game))"
  have "move ''right'' 0 demo_game
          = (fst (move ''right'' 0 demo_game), fst (snd (move ''right'' 0 demo_game)), ?s)"
    by simp
  with demo_game_reachable have r: "reachable ?s" by (rule reach_move)
  have l: "lastMoveTime ?s = Some 0" by code_simp
  have a: "gameActive ?s" by code_simp
  from l have "fst (isHesitating 5000 ?s) = False"
    by (simp add: isHesitating_def truthy_def)
  with r l a show ?thesis by simp
qed

text \<open>
  C9, amended: in every session and at every clock reading, the query
  \<open>isHesitating\<close> answers true exactly when the session is active, a last move
  timestamp is set and is not the number \<open>0\<close>, and more than 2000 ms have
  passed since it; and it returns the session as it found it: a second
  evaluation gives the same answer, and the hesitation counter keeps its value.
\<close>

theorem isHesitating_read_only:
  "isHesitating now s
     = (gameActive s \<and> (\<exists>t. lastMoveTime s = Some t \<and> t \<noteq> 0 \<and> now - t > 2000), s)
   \<and> isHesitating now (snd (isHesitating now s)) = isHesitating now s
   \<and> hesitations (snd (isHesitating now s)) = hesitations s"
  by (cases "lastMoveTime s") (auto simp: isHesitating_def truthy_def js_number_def Let_def)

section \<open>Rejected moves\<close>

lemma isValidMove_blocked:
  "maze s \<noteq> [] \<Longrightarrow> isValidMove s x y = Inr (\<not> blocked s (x, y))"
  by (cases "maze s") (auto simp: isValidMove_def blocked_def)

lemma startGame_inactive:
  "\<not> gameActive s \<Longrightarrow> maze s \<noteq> [] \<Longrightarrow>
     startGame now s
       = (Inr (), [Game_start now (int (length (hd (maze s)))) (int (length (maze s)))],
          started now s)"
  by (cases "maze s") (auto simp: startGame_def started_def Let_def)

lemma blocked_started [simp]: "blocked (started now s) p = blocked s p"
  by (simp add: blocked_def started_def)

lemma target_started [simp]: "target d (started now s) = target d s"
  by (simp add: target_def started_def)

lemma move_active_blocked:
  assumes "gameActive s" "maze s \<noteq> []" "blocked s (target direction s)"
  shows "move direction now s = (Inr (), [Invalid_move direction (target direction s)], s)"
  using assms isValidMove_blocked[OF assms(2), of "fst (target direction s)" "snd (target direction s)"]
  by (simp add: move_def Let_def target_def)

lemma move_inactive:
  assumes "\<not> gameActive s" "maze s \<noteq> []"
  shows "move direction now s =
     (case move direction now (started now s) of
        (r, ev, s') \<Rightarrow>
          (r, Game_start now (int (length (hd (maze s)))) (int (length (maze s))) # ev, s'))"
proof -
  have a: "gameActive (started now s)" by (simp add: started_def)
  show ?thesis
    unfolding move_def[of direction now s] move_def[of direction now "started now s"]
    using assms a startGame_inactive[OF assms, of now]
    by (simp add: Let_def split: sum.splits bool.splits prod.splits)
qed

text \<open>
  C7, amended: a move whose target is a wall or outside the grid is rejected
  without an error, and the position, the moves counter and the path keep their
  values. On an active session nothing changes and the invalid-move observation
  is the only one; on a session that is not active \<open>move\<close> starts it first, so a
  game-start observation comes before the invalid-move one and the session is
  left started.
\<close>

theorem rejected_move_frame:
  assumes "maze s \<noteq> []" and "blocked s (target direction s)"
  shows "move direction now s =
           (Inr (),
            (if gameActive s then []
             else [Game_start now (int (length (hd (maze s)))) (int (length (maze s)))])
              @ [Invalid_move direction (target direction s)],
            (if gameActive s then s else started now s))
       \<and> player (snd (snd (move direction now s))) = player s
       \<and> moves (snd (snd (move direction now s))) = moves s
       \<and> path (snd (snd (move direction now s))) = path s"
proof (cases "gameActive s")
  case True
  with move_active_blocked[OF True assms, of now] show ?thesis by simp
next
  case False
  have "gameActive (started now s)" "maze (started now s) \<noteq> []"
    using assms(1) by (simp_all add: started_def)
  from move_active_blocked[OF this, of direction now] assms(2)
  have "move direction now (started now s)
          = (Inr (), [Invalid_move direction (target direction s)], started now s)"
    by simp
  with move_inactive[OF False assms(1), of direction now]
  have "move direction now s =
          (Inr (), [Game_start now (int (length (hd (maze s)))) (int (length (maze s))),
                    Invalid_move direction (target direction s)], started now s)"
    by simp
  moreover have "player (started now s) = player s" "moves (started now s) = moves s"
    "path (started now s) = path s"
    by (simp_all add: started_def)
  ultimately show ?thesis using False by simp
qed

text \<open>
  C7, as stated, fails on a session that has not started: the rejected move
  \<open>up\<close> from \<open>(1, 1)\<close> tracks two observations and leaves the session active.
\<close>

theorem rejected_move_counterexample:
  "blocked demo_game (target ''up'' demo_game)
   \<and> \<not> gameActive demo_game
   \<and> fst (snd (move ''up'' 1000 demo_game))
       = [Game_start 1000 15 15, Invalid_move ''up'' (1, 0)]
   \<and> gameActive (snd (snd (move ''up'' 1000 demo_game)))"
  by code_simp

theorem rejected_move_frame_witness:
  "maze demo_game \<noteq> [] \<and> blocked demo_game (target ''left'' demo_game)
   \<and> move ''left'' 1000 demo_game =
        (Inr (), [Game_start 1000 15 15, Invalid_move ''left'' (0, 1)], started 1000 demo_game)
   \<and> player (snd (snd (move ''left'' 1000 demo_game))) = (1, 1)
   \<and> moves (snd (snd (move ''left'' 1000 demo_game))) = 0
   \<and> path (snd (snd (move ''left'' 1000 demo_game))) = [(1, 1)]"
proof -
  have m: "maze demo_game \<noteq> []" by code_simp
  have b: "blocked demo_game (target ''left'' demo_game)" by code_simp
  have f: "\<not> gameActive demo_game" "length (hd (maze demo_game)) = 15" "length (maze demo_game) = 15"
    "target ''left'' demo_game = (0, 1)" "player demo_game = (1, 1)" "moves demo_game = 0"
    "path demo_game = [(1, 1)]" by code_simp+
  from rejected_move_frame[OF m b, of 1000] m b f show ?thesis by (simp add: started_def)
qed

section \<open>Moves after completion, and malformed input\<close>

lemma move_active_free:
  assumes "gameActive s" "maze s \<noteq> []" "\<not> blocked s (target direction s)"
  shows "move direction now s =
     accept_move direction
       (if direction = ''left'' then - 1 else if direction = ''right'' then 1 else 0)
       (if direction = ''up'' then - 1 else if direction = ''down'' then 1 else 0)
       (fst (target direction s)) (snd (target direction s)) now s"
  using assms isValidMove_blocked[OF assms(2), of "fst (target direction s)" "snd (target direction s)"]
  by (simp add: move_def Let_def target_def split: prod.splits)

lemma accept_move_times:
  assumes "accept_move direction dx dy newX newY now s = (r, ev, s')"
  shows "lastMoveTime s' = Some now \<and> startTime s' = startTime s"
proof -
  obtain ev1 s1 where th: "track_hesitation now s = (ev1, s1)" by (cases "track_hesitation now s")
  note f = track_hesitation_frame[OF th]
  from assms th f show ?thesis
    by (auto simp: accept_move_def completeGame_def Let_def split: option.splits if_splits prod.splits)
qed

lemma accept_move_active:
  assumes "accept_move direction dx dy newX newY now s = (r, ev, s')" "gameActive s"
    "exit s = Some e"
  shows "r = Inr () \<and> gameActive s' = (e \<noteq> (newX, newY))"
proof -
  obtain ev1 s1 where th: "track_hesitation now s = (ev1, s1)" by (cases "track_hesitation now s")
  note f = track_hesitation_frame[OF th]
  from assms th f show ?thesis
    by (cases e) (auto simp: accept_move_def completeGame_def Let_def split: if_splits prod.splits)
qed

text \<open>
  C3, amended: on a completed session a move is never without effect. It
  restarts the session, stamping the start and last-move times, and is then
  handled like any other move: a blocked target leaves the session as
  \<open>startGame\<close> set it, a free target moves the player and counts one more move
  and decision, and the session is active afterwards unless the move stays on
  the exit, where it is completed again.
\<close>

theorem move_after_completion_restarts:
  assumes "complete s" and "maze s \<noteq> []"
  shows "snd (snd (move direction now s)) \<noteq> s
       \<and> startTime (snd (snd (move direction now s))) = Some now
       \<and> lastMoveTime (snd (snd (move direction now s))) = Some now
       \<and> (blocked s (target direction s) \<longrightarrow>
            snd (snd (move direction now s)) = started now s)
       \<and> (\<not> blocked s (target direction s) \<longrightarrow>
            player (snd (snd (move direction now s))) = target direction s
            \<and> moves (snd (snd (move direction now s))) = moves s + 1
            \<and> decisions (snd (snd (move direction now s))) = decisions s + 1
            \<and> gameActive (snd (snd (move direction now s)))
                = (target direction s \<noteq> player s))"
proof -
  from assms(1) have na: "\<not> gameActive s" and ex: "exit s = Some (player s)"
    by (simp_all add: complete_def)
  let ?t = "started now s"
  have t: "gameActive ?t" "maze ?t \<noteq> []" "exit ?t = Some (player s)" "startTime ?t = Some now"
    "lastMoveTime ?t = Some now" "moves ?t = moves s" "decisions ?t = decisions s"
    using assms(2) ex by (simp_all add: started_def)
  have st: "snd (snd (move direction now s)) = snd (snd (move direction now ?t))"
    using move_inactive[OF na assms(2), of direction now] by (simp split: prod.splits)
  show ?thesis
  proof (cases "blocked s (target direction s)")
    case True
    then have "move direction now ?t = (Inr (), [Invalid_move direction (target direction s)], ?t)"
      using move_active_blocked[OF t(1,2), of direction now] by simp
    with st have "snd (snd (move direction now s)) = ?t" by simp
    moreover have "?t \<noteq> s" using na t(1) by auto
    ultimately show ?thesis using True t by simp
  next
    case False
    obtain r ev s' where am: "accept_move direction
       (if direction = ''left'' then - 1 else if direction = ''right'' then 1 else 0)
       (if direction = ''up'' then - 1 else if direction = ''down'' then 1 else 0)
       (fst (target direction s)) (snd (target direction s)) now ?t = (r, ev, s')"
      by (metis prod_cases3)
    have "move direction now ?t = (r, ev, s')"
      using move_active_free[OF t(1,2), of direction now] False am by simp
    with st have s': "snd (snd (move direction now s)) = s'" by simp
    from accept_move_result[OF am] accept_move_times[OF am] accept_move_active[OF am t(1) t(3)] t
    have "player s' = target direction s" "moves s' = moves s + 1" "decisions s' = decisions s + 1"
      "lastMoveTime s' = Some now" "startTime s' = Some now"
      "gameActive s' = (target direction s \<noteq> player s)"
      by auto
    moreover from this have "s' \<noteq> s" by auto
    ultimately show ?thesis using False s' by simp
  qed
qed

lemma demo_complete_facts:
  "complete demo_complete" "maze demo_complete \<noteq> []" "player demo_complete = (13, 1)"
  "moves demo_complete = 12" "decisions demo_complete = 12"
  "\<not> blocked demo_complete (target ''left'' demo_complete)"
  "target ''left'' demo_complete = (12, 1)"
  by code_simp+

text \<open>
  C3, as stated, fails: after the twelve moves that reach the exit of the demo
  session, the move \<open>left\<close> is applied, and moving \<open>right\<close> again completes the
  session a second time.
\<close>

theorem move_after_completion_counterexample:
  "complete demo_complete
   \<and> player demo_complete = (13, 1) \<and> moves demo_complete = 12
   \<and> snd (snd (move ''left'' 20000 demo_complete)) \<noteq> demo_complete
   \<and> player (snd (snd (move ''left'' 20000 demo_complete))) = (12, 1)
   \<and> moves (snd (snd (move ''left'' 20000 demo_complete))) = 13
   \<and> gameActive (snd (snd (move ''left'' 20000 demo_complete)))
   \<and> complete (play [(''left'', 20000), (''right'', 21000)] demo_complete)"
proof -
  have "player (snd (snd (move ''left'' 20000 demo_complete))) = (12, 1)"
    "moves (snd (snd (move ''left'' 20000 demo_complete))) = 13"
    "gameActive (snd (snd (move ''left'' 20000 demo_complete)))"
    "complete (play [(''left'', 20000), (''right'', 21000)] demo_complete)"
    by code_simp+
  moreover from this demo_complete_facts
  have "snd (snd (move ''left'' 20000 demo_complete)) \<noteq> demo_complete" by auto
  ultimately show ?thesis using demo_complete_facts by simp
qed

theorem move_after_completion_restarts_witness:
  "complete demo_complete \<and> maze demo_complete \<noteq> []
   \<and> \<not> blocked demo_complete (target ''left'' demo_complete)
   \<and> snd (snd (move ''left'' 20000 demo_complete)) \<noteq> demo_complete
   \<and> startTime (snd (snd (move ''left'' 20000 demo_complete))) = Some 20000
   \<and> player (snd (snd (move ''left'' 20000 demo_complete))) = (12, 1)
   \<and> moves (snd (snd (move ''left'' 20000 demo_complete))) = 13
   \<and> gameActive (snd (snd (move ''left'' 20000 demo_complete)))"
  using move_after_completion_restarts[OF demo_complete_facts(1,2), of "''left''" 20000]
    demo_complete_facts
  by simp

lemma generateMaze_negative:
  assumes "w < 0 \<or> h < 0"
  shows "generateMaze w h rnd k s = Some (Inl (if h = 0 then TypeError else RangeError), s)"
  using assms
  by (auto simp: generateMaze_def new_grid_def write_cell_def)

text \<open>
  C8, amended: a negative grid size makes \<open>generateMaze\<close> throw before it
  changes the session, a RangeError, or a TypeError when the height is \<open>0\<close>.
  A direction outside the four raises no error: \<open>move\<close> takes it for a move
  of no displacement, and where the player stands on a cell that is not a wall
  it accepts it, so that position and path keep their values while the moves
  and decisions counters go up by one.
\<close>

theorem malformed_inputs:
  assumes "w < 0 \<or> h < 0"
    and "direction \<notin> {''up'', ''down'', ''left'', ''right''}"
    and "maze s \<noteq> []" and "\<not> blocked s (player s)" and "exit s \<noteq> None"
    and "path s \<noteq> []" and "last (path s) = player s"
  shows "generateMaze w h rnd k s = Some (Inl (if h = 0 then TypeError else RangeError), s)
       \<and> fst (move direction now s) = Inr ()
       \<and> player (snd (snd (move direction now s))) = player s
       \<and> path (snd (snd (move direction now s))) = path s
       \<and> moves (snd (snd (move direction now s))) = moves s + 1
       \<and> decisions (snd (snd (move direction now s))) = decisions s + 1"
proof -
  have tg: "\<And>s. target direction s = player s"
    using assms(2) by (simp add: target_def)
  let ?t = "if gameActive s then s else started now s"
  have t: "gameActive ?t" "maze ?t \<noteq> []" "exit ?t = exit s" "player ?t = player s"
    "path ?t = path s" "moves ?t = moves s" "decisions ?t = decisions s"
    "\<not> blocked ?t (target direction ?t)"
    using assms(3,4) by (auto simp: started_def tg blocked_def)
  obtain e where e: "exit ?t = Some e" using assms(5) t(3) by auto
  obtain r ev s' where am: "accept_move direction
       (if direction = ''left'' then - 1 else if direction = ''right'' then 1 else 0)
       (if direction = ''up'' then - 1 else if direction = ''down'' then 1 else 0)
       (fst (target direction ?t)) (snd (target direction ?t)) now ?t = (r, ev, s')"
    by (metis prod_cases3)
  have mv: "move direction now ?t = (r, ev, s')"
    using move_active_free[OF t(1,2,8), of now] am by simp
  have "fst (move direction now s) = r \<and> snd (snd (move direction now s)) = s'"
  proof (cases "gameActive s")
    case True
    with mv show ?thesis by simp
  next
    case False
    with mv move_inactive[OF False assms(3), of direction now] show ?thesis by simp
  qed
  moreover from accept_move_result[OF am] accept_move_active[OF am t(1) e] t assms(6,7)
  have "r = Inr ()" "player s' = player s" "path s' = path s" "moves s' = moves s + 1"
    "decisions s' = decisions s + 1"
    by (auto simp: tg)
  ultimately show ?thesis using generateMaze_negative[OF assms(1)] by simp
qed

text \<open>
  C8, as stated, fails: the direction \<open>diagonal\<close> raises no error and is counted
  as a move.
\<close>

theorem malformed_inputs_counterexample:
  "''diagonal'' \<notin> {''up'', ''down'', ''left'', ''right''}
   \<and> fst (move ''diagonal'' 1000 demo_game) = Inr ()
   \<and> moves demo_game = 0
   \<and> moves (snd (snd (move ''diagonal'' 1000 demo_game))) = 1
   \<and> decisions (snd (snd (move ''diagonal'' 1000 demo_game))) = 1"
  by code_simp

theorem malformed_inputs_witness:
  "((- 1::int) < 0 \<or> (15::int) < 0)
   \<and> ''diagonal'' \<notin> {''up'', ''down'', ''left'', ''right''}
   \<and> maze demo_game \<noteq> [] \<and> \<not> blocked demo_game (player demo_game)
   \<and> exit demo_game \<noteq> None \<and> path demo_game \<noteq> []
   \<and> last (path demo_game) = player demo_game
   \<and> generateMaze (- 1) 15 rnd_zero 0 demo_game = Some (Inl RangeError, demo_game)
   \<and> fst (move ''diagonal'' 1000 demo_game) = Inr ()
   \<and> moves (snd (snd (move ''diagonal'' 1000 demo_game))) = 1"
proof -
  have f: "maze demo_game \<noteq> []" "\<not> blocked demo_game (player demo_game)"
    "exit demo_game \<noteq> None" "path demo_game \<noteq> []" "last (path demo_game) = player demo_game"
    "moves demo_game = 0"
    by code_simp+
  have d: "''diagonal'' \<notin> {''up'', ''down'', ''left'', ''right''}" by simp
  have n: "(- 1::int) < 0 \<or> (15::int) < 0" by simp
  from malformed_inputs[OF n d f(1-5), of rnd_zero 0 1000] f d show ?thesis by simp
qed

section \<open>The generated maze\<close>

lemma adjacent_sym: "adjacent p q \<Longrightarrow> adjacent q p"
  by (auto simp: adjacent_def)

lemma adjacent_irrefl: "\<not> adjacent p p"
  by (auto simp: adjacent_def)

lemma region_subset: "region cells \<subseteq> cells"
proof
  fix p assume "p \<in> region cells" then show "p \<in> cells" by induction auto
qed

lemma region_mono: "A \<subseteq> B \<Longrightarrow> region A \<subseteq> region B"
proof
  fix p assume "A \<subseteq> B" "p \<in> region A"
  from this(2,1) show "p \<in> region B"
    by induction (auto intro: region.intros)
qed

lemma tree_inv_finite: "tree_inv w h cells \<Longrightarrow> finite cells"
proof -
  assume "tree_inv w h cells"
  then have "cells \<subseteq> {0<..<w - 1} \<times> {0<..<h - 1}"
    by (auto simp: tree_inv_def)
  then show ?thesis by (rule finite_subset) simp
qed

lemma links_finite: "finite cells \<Longrightarrow> finite (links cells)"
  by (rule finite_subset[of _ "cells \<times> cells"]) (auto simp: links_def)

text \<open>The cells beside the wall between a room and the room two cells away.\<close>

lemma between_neighbours:
  assumes "room c" "(dx, dy) \<in> set directions"
    and "p = (fst c + dx div 2, snd c + dy div 2)" "n = (fst c + dx, snd c + dy)"
  shows "adjacent c p" "adjacent p n" "p \<noteq> n" "p \<noteq> c" "n \<noteq> c" "room n" "\<not> room p"
    "odd (fst p) \<or> odd (snd p)"
    "\<And>b. adjacent p b \<Longrightarrow> odd (fst b) \<or> odd (snd b) \<Longrightarrow> b = c \<or> b = n"
    "\<And>b. adjacent n b \<Longrightarrow> \<not> room b"
  using assms by (auto simp: directions_def adjacent_def room_def prod_eq_iff)

lemma adjacent_room: "adjacent p r \<Longrightarrow> room r \<Longrightarrow> \<not> room p \<and> (odd (fst p) \<or> odd (snd p))"
  by (auto simp: adjacent_def room_def)

lemma carve_tree_inv:
  assumes inv: "tree_inv w h cells" and c: "c \<in> cells" "room c"
    and d: "(dx, dy) \<in> set directions"
    and p: "p = (fst c + dx div 2, snd c + dy div 2)"
    and n: "n = (fst c + dx, snd c + dy)"
    and nn: "n \<notin> cells" "0 < fst n" "fst n < w - 1" "0 < snd n" "snd n < h - 1"
  shows "tree_inv w h (insert n (insert p cells))" "p \<notin> cells"
proof -
  note b = between_neighbours[OF c(2) d p n]
  let ?C = "insert n (insert p cells)"
  from inv have start: "(1, 1) \<in> cells"
    and inside: "\<forall>q \<in> cells. 0 < fst q \<and> fst q < w - 1 \<and> 0 < snd q \<and> snd q < h - 1
            \<and> (odd (fst q) \<or> odd (snd q))"
    and pass: "\<forall>q \<in> cells. \<forall>r. adjacent q r \<longrightarrow> room r \<longrightarrow> r \<in> cells"
    and conn: "cells \<subseteq> region cells"
    and cnt: "card (links cells) + 2 = 2 * card cells"
    by (auto simp: tree_inv_def)
  have fin: "finite cells" using inv by (rule tree_inv_finite)
  show pn: "p \<notin> cells"
  proof
    assume "p \<in> cells"
    with pass b(2,6) have "n \<in> cells" by blast
    with nn(1) show False by simp
  qed
  have cin: "0 < fst c \<and> fst c < w - 1 \<and> 0 < snd c \<and> snd c < h - 1"
    using inside c(1) by blast
  have pin: "0 < fst p \<and> fst p < w - 1 \<and> 0 < snd p \<and> snd p < h - 1"
    using cin nn(2-5) d p n by (auto simp: directions_def)
  have inside': "\<forall>q \<in> ?C. 0 < fst q \<and> fst q < w - 1 \<and> 0 < snd q \<and> snd q < h - 1
            \<and> (odd (fst q) \<or> odd (snd q))"
    using inside pin nn(2-5) b(6,8) by (auto simp: room_def)
  have pass': "\<forall>q \<in> ?C. \<forall>r. adjacent q r \<longrightarrow> room r \<longrightarrow> r \<in> ?C"
  proof (intro ballI allI impI)
    fix q r assume q: "q \<in> ?C" and a: "adjacent q r" and r: "room r"
    consider "q = n" | "q = p" | "q \<in> cells" using q by auto
    then show "r \<in> ?C"
    proof cases
      case 1 with b(10) a r show ?thesis by blast
    next
      case 2
      with b(9)[of r] a r have "r = c \<or> r = n" by (auto simp: room_def)
      with c(1) show ?thesis by auto
    next
      case 3 with pass a r show ?thesis by blast
    qed
  qed
  have conn': "?C \<subseteq> region ?C"
  proof -
    have m: "region cells \<subseteq> region ?C" by (rule region_mono) auto
    have "c \<in> region ?C" using conn c(1) m by blast
    then have pr: "p \<in> region ?C" using region_step[OF _ _ b(1), of ?C] by simp
    then have "n \<in> region ?C" using region_step[OF _ _ b(2), of ?C] by simp
    with pr conn m show ?thesis by auto
  qed
  have links': "links ?C = links cells \<union> {(c, p), (p, c), (p, n), (n, p)}"
  proof (intro equalityI subsetI)
    fix e assume e: "e \<in> links ?C"
    obtain a q where aq: "e = (a, q)" by (cases e)
    with e have a: "a \<in> ?C" and q: "q \<in> ?C" and adj: "adjacent a q"
      by (auto simp: links_def)
    have P: "\<And>t. t \<in> ?C \<Longrightarrow> adjacent p t \<Longrightarrow> t = c \<or> t = n"
      using b(9) inside' by blast
    have N: "\<And>t. t \<in> ?C \<Longrightarrow> adjacent n t \<Longrightarrow> t = p"
    proof (rule ccontr)
      fix t assume t: "t \<in> ?C" "adjacent n t" "t \<noteq> p"
      moreover have "t \<noteq> n" using t(2) adjacent_irrefl[of n] by auto
      ultimately have "t \<in> cells" by auto
      with pass adjacent_sym[OF t(2)] b(6) have "n \<in> cells" by blast
      with nn(1) show False by simp
    qed
    consider "a = p" | "a = n" | "q = p" | "q = n" | "a \<in> cells" "q \<in> cells"
      using a q by auto
    then show "e \<in> links cells \<union> {(c, p), (p, c), (p, n), (n, p)}"
    proof cases
      case 1 with P[OF q] adj aq show ?thesis by auto
    next
      case 2 with N[OF q] adj aq show ?thesis by auto
    next
      case 3 with P[OF a] adjacent_sym[OF adj] aq show ?thesis by auto
    next
      case 4 with N[OF a] adjacent_sym[OF adj] aq show ?thesis by auto
    next
      case 5 with adj aq show ?thesis by (simp add: links_def)
    qed
  next
    fix e assume "e \<in> links cells \<union> {(c, p), (p, c), (p, n), (n, p)}"
    with b(1,2) c(1) show "e \<in> links ?C"
      by (auto simp: links_def dest: adjacent_sym)
  qed
  have notin: "(c, p) \<notin> links cells" "(p, c) \<notin> links cells" "(p, n) \<notin> links cells"
    "(n, p) \<notin> links cells"
    using pn nn(1) by (auto simp: links_def)
  have "card (links ?C) = card (links cells) + 4"
    unfolding links' using links_finite[OF fin] notin b(3,4,5)
    by (simp add: Un_commute[of "links cells"] card_insert_if)
  moreover have "card ?C = card cells + 2"
    using fin pn nn(1) b(3) by simp
  ultimately have cnt': "card (links ?C) + 2 = 2 * card ?C" using cnt by simp
  show "tree_inv w h ?C"
    unfolding tree_inv_def using start inside' pass' conn' cnt' by simp
qed

lemma read_write_same:
  "write_cell g x y v = Inr g' \<Longrightarrow> 0 \<le> x \<Longrightarrow> read_cell g' x y = Inr v"
  by (auto simp: read_cell_def write_cell_def row_get_set_same split: if_splits)

lemma open_cells_write:
  assumes "write_cell g x y v = Inr g'" "0 \<le> x" "v = Open \<or> v = Exit"
  shows "open_cells g' = insert (x, y) (open_cells g)"
proof -
  have "is_open g' q \<longleftrightarrow> q = (x, y) \<or> is_open g q" for q
  proof (cases "q = (x, y)")
    case True
    with read_write_same[OF assms(1,2)] assms(3) show ?thesis by (auto simp: is_open_def)
  next
    case False
    then have "(fst q, snd q) \<noteq> (x, y)" by (simp add: prod_eq_iff)
    from read_write_other[OF assms(1) this] False show ?thesis by (simp add: is_open_def)
  qed
  then show ?thesis by (auto simp: open_cells_def)
qed

lemma grid_ok_read:
  assumes "grid_ok w h g" "0 \<le> x" "x < w" "0 \<le> y" "y < h"
  shows "read_cell g x y = Inr Wall \<or> read_cell g x y = Inr Open"
proof -
  from assms have y: "nat y < length g" by (auto simp: grid_ok_def)
  then have r: "g ! nat y \<in> set g" by simp
  with assms have l: "int (length (g ! nat y)) = w" and s: "set (g ! nat y) \<subseteq> {Wall, Open}"
    by (auto simp: grid_ok_def)
  from l assms have "nat x < length (g ! nat y)" by linarith
  then have "g ! nat y ! nat x \<in> set (g ! nat y)" by simp
  with s have "g ! nat y ! nat x = Wall \<or> g ! nat y ! nat x = Open" by auto
  with assms y l show ?thesis by (auto simp: read_cell_def row_get_def)
qed

lemma grid_ok_write:
  assumes "grid_ok w h g" "0 \<le> x" "x < w" "0 \<le> y" "y < h"
  shows "\<exists>g'. write_cell g x y Open = Inr g' \<and> grid_ok w h g'"
proof -
  from assms have y: "nat y < length g" by (auto simp: grid_ok_def)
  then have r: "g ! nat y \<in> set g" by simp
  with assms have l: "int (length (g ! nat y)) = w" and s: "set (g ! nat y) \<subseteq> {Wall, Open}"
    by (auto simp: grid_ok_def)
  from l assms have x: "nat x < length (g ! nat y)" by linarith
  let ?row = "(g ! nat y)[nat x := Open]"
  have rs: "row_set (g ! nat y) x Open = ?row" using assms l by (simp add: row_set_def)
  have w: "write_cell g x y Open = Inr (g[nat y := ?row])"
    using assms y rs by (simp add: write_cell_def)
  have "set ?row \<subseteq> {Wall, Open}" using s set_update_subset_insert[of "g ! nat y" "nat x" Open] by auto
  moreover have "int (length ?row) = w" using l by simp
  ultimately have "\<forall>row \<in> set (g[nat y := ?row]). int (length row) = w \<and> set row \<subseteq> {Wall, Open}"
    using assms(1) set_update_subset_insert[of g "nat y" ?row] by (auto simp: grid_ok_def)
  then have "grid_ok w h (g[nat y := ?row])" using assms(1) by (simp add: grid_ok_def)
  with w show ?thesis by blast
qed

lemma carve_step_cases:
  assumes "carve_step w h rnd g c rest k = Inr (g', st', k')"
  shows "(g' = g \<and> st' = rest \<and> k' = k)
       \<or> (\<exists>dx dy g1. (dx, dy) \<in> set directions
            \<and> 0 < fst c + dx \<and> fst c + dx < w - 1 \<and> 0 < snd c + dy \<and> snd c + dy < h - 1
            \<and> read_cell g (fst c + dx) (snd c + dy) = Inr Wall
            \<and> write_cell g (fst c + dx div 2) (snd c + dy div 2) Open = Inr g1
            \<and> write_cell g1 (fst c + dx) (snd c + dy) Open = Inr g'
            \<and> st' = (fst c + dx, snd c + dy) # c # rest \<and> k' = k + 1)"
proof -
  obtain x y where c: "c = (x, y)" by (cases c)
  from assms c obtain ns where ns: "neighbors w h g x y directions = Inr ns"
    by (auto simp: carve_step_def split: sum.splits)
  show ?thesis
  proof (cases "length ns > 0")
    case False
    with assms c ns show ?thesis by (simp add: carve_step_def)
  next
    case True
    obtain nx ny dx dy
      where pick: "ns ! nat (random_floor rnd k (int (length ns))) = (nx, ny, dx, dy)"
      by (metis prod_cases4)
    have "(nx, ny, dx, dy) \<in> set ns"
      using random_floor_less[OF True, of rnd k] pick by (metis nth_mem)
    from neighbors_mem[OF ns this]
    have d: "(dx, dy) \<in> set directions" and n: "nx = x + dx" "ny = y + dy"
      and i: "0 < nx" "nx < w - 1" "0 < ny" "ny < h - 1"
      and wall: "read_cell g nx ny = Inr Wall" by auto
    from assms c ns True pick obtain g1 where
      g1: "write_cell g (x + dx div 2) (y + dy div 2) Open = Inr g1"
      and g2: "write_cell g1 nx ny Open = Inr g'" and st': "st' = (nx, ny) # c # rest"
      and k': "k' = k + 1"
      by (auto simp: carve_step_def split: sum.splits)
    show ?thesis
      using d n i wall g1 g2 st' k' c by auto
  qed
qed

lemma grid_ok_write_pres:
  assumes "grid_ok w h g" "write_cell g x y Open = Inr g'" "0 \<le> x" "x < w"
  shows "grid_ok w h g'"
proof -
  from assms(2) have "0 \<le> y" "y < int (length g)"
    by (auto simp: write_cell_def split: if_splits)
  with assms(1) have "0 \<le> y" "y < h" by (auto simp: grid_ok_def)
  from grid_ok_write[OF assms(1,3,4) this] assms(2) show ?thesis by auto
qed

lemma carve_step_inv:
  assumes inv: "carve_inv w h g (c # rest)"
    and step: "carve_step w h rnd g c rest k = Inr (g', st', k')"
  shows "carve_inv w h g' st'"
proof -
  from inv have ok: "grid_ok w h g" and t: "tree_inv w h (open_cells g)"
    and c: "c \<in> open_cells g" "room c"
    and rest: "\<forall>q \<in> set rest. q \<in> open_cells g \<and> room q"
    by (auto simp: carve_inv_def)
  from carve_step_cases[OF step] show ?thesis
  proof (elim disjE exE conjE)
    assume "g' = g" "st' = rest" "k' = k"
    with ok t rest show ?thesis by (simp add: carve_inv_def)
  next
    fix dx dy g1
    assume d: "(dx, dy) \<in> set directions"
      and i: "0 < fst c + dx" "fst c + dx < w - 1" "0 < snd c + dy" "snd c + dy < h - 1"
      and wall: "read_cell g (fst c + dx) (snd c + dy) = Inr Wall"
      and g1: "write_cell g (fst c + dx div 2) (snd c + dy div 2) Open = Inr g1"
      and g': "write_cell g1 (fst c + dx) (snd c + dy) Open = Inr g'"
      and st': "st' = (fst c + dx, snd c + dy) # c # rest"
    let ?p = "(fst c + dx div 2, snd c + dy div 2)" and ?n = "(fst c + dx, snd c + dy)"
    have nn: "?n \<notin> open_cells g" using wall by (simp add: open_cells_def is_open_def)
    from t c(1) have cin: "0 < fst c" "fst c < w - 1" by (auto simp: tree_inv_def)
    have px: "0 \<le> fst c + dx div 2" "fst c + dx div 2 < w"
      using cin i d by (auto simp: directions_def)
    have o1: "open_cells g1 = insert ?p (open_cells g)"
      using open_cells_write[OF g1 px(1)] by simp
    have o': "open_cells g' = insert ?n (insert ?p (open_cells g))"
      using open_cells_write[OF g'] i(1) o1 by simp
    have t': "tree_inv w h (open_cells g')"
      unfolding o' using carve_tree_inv(1)[OF t c d refl refl nn] i by simp
    have ok1: "grid_ok w h g1" using grid_ok_write_pres[OF ok g1 px] .
    have ok': "grid_ok w h g'" using grid_ok_write_pres[OF ok1 g'] i by simp
    have "\<forall>q \<in> set st'. q \<in> open_cells g' \<and> room q"
      using st' o' c rest between_neighbours(6)[OF c(2) d refl refl] by auto
    with ok' t' show ?thesis by (simp add: carve_inv_def)
  qed
qed

lemma carve_preserves_inv:
  "carve_inv w h g stack \<Longrightarrow> carve w h rnd g stack k = Inr (g', k') \<Longrightarrow> carve_inv w h g' []"
proof (induction w h rnd g stack k rule: carve.induct)
  case (1 width height rnd grid k)
  then show ?case by simp
next
  case (2 width height rnd grid cur rest k)
  from "2.prems"(2) obtain g1 st1 k1
    where step: "carve_step width height rnd grid cur rest k = Inr (g1, st1, k1)"
      and rec: "carve width height rnd g1 st1 k1 = Inr (g', k')"
    by (auto split: sum.splits prod.splits)
  from carve_step_inv[OF "2.prems"(1) step] have "carve_inv width height g1 st1" .
  from "2.IH"[OF step refl refl this rec] show ?case .
qed

lemma links_edges: "links cells = edges cells \<union> (edges cells)\<inverse>"
  by (auto simp: links_def edges_def adjacent_def prod_eq_iff)

lemma edges_converse_disjoint: "edges cells \<inter> (edges cells)\<inverse> = {}"
  by (auto simp: edges_def)

lemma card_links:
  assumes "finite cells"
  shows "card (links cells) = 2 * card (edges cells)"
proof -
  have f: "finite (edges cells)"
    by (rule finite_subset[of _ "cells \<times> cells"]) (auto simp: edges_def assms)
  then have "card (edges cells \<union> (edges cells)\<inverse>) = card (edges cells) + card ((edges cells)\<inverse>)"
    by (intro card_Un_disjoint) (simp_all add: edges_converse_disjoint)
  then show ?thesis by (simp add: links_edges)
qed

lemma tree_inv_edges:
  assumes "tree_inv w h cells"
  shows "card (edges cells) + 1 = card cells"
  using assms card_links[OF tree_inv_finite[OF assms]] by (simp add: tree_inv_def)

lemma read_cell_new_grid:
  "new_grid w h = Inr g \<Longrightarrow> read_cell g x y \<noteq> Inr Open \<and> read_cell g x y \<noteq> Inr Exit"
  by (auto simp: new_grid_def read_cell_def row_get_def split: if_splits)

lemma grid_ok_new_grid: "new_grid w h = Inr g \<Longrightarrow> 0 < h \<Longrightarrow> grid_ok w h g"
  by (auto simp: new_grid_def grid_ok_def split: if_splits)

lemma carve_inv_start:
  assumes "new_grid w h = Inr g0" "write_cell g0 1 1 Open = Inr g1" "3 \<le> w" "3 \<le> h"
  shows "carve_inv w h g1 [(1, 1)]"
proof -
  have "open_cells g0 = {}" using read_cell_new_grid[OF assms(1)]
    by (auto simp: open_cells_def is_open_def)
  with open_cells_write[OF assms(2)] have o: "open_cells g1 = {(1, 1)}" by simp
  have ok0: "grid_ok w h g0" using grid_ok_new_grid[OF assms(1)] assms(4) by simp
  have ok: "grid_ok w h g1" using grid_ok_write_pres[OF ok0 assms(2)] assms(3) by simp
  have r: "region {(1, 1)} = {(1::int, 1::int)}"
    using region_subset[of "{(1, 1)}"] region_start[of "{(1, 1)}"] by auto
  have l: "links {(1::int, 1::int)} = {}" by (auto simp: links_def adjacent_def)
  have "tree_inv w h {(1, 1)}"
    using assms(3,4) r l by (auto simp: tree_inv_def adjacent_def room_def)
  with ok o show ?thesis by (simp add: carve_inv_def room_def)
qed

lemma exit_found_later: "exit_found w h rnd g (k + 1) r \<Longrightarrow> exit_found w h rnd g k r"
  by (auto simp: exit_found_def split: sum.splits prod.splits intro: Suc_leD)

lemma find_exit_result:
  assumes "find_exit w h rnd g k = Some r"
  shows "exit_found w h rnd g k r"
proof (rule find_exit.raw_induct[where P = exit_found, OF _ assms])
  fix find_exit width height rnd grid k y
  assume IH: "\<And>width height rnd grid k y. find_exit width height rnd grid k = Some y
                \<Longrightarrow> exit_found width height rnd grid k y"
    and body: "(let exitX = width - 2; exitY = random_floor rnd k (height - 2) + 1 in
      case read_cell grid exitX exitY of
        Inl e \<Rightarrow> Some (Inl e)
      | Inr c \<Rightarrow>
         if c = Wall then find_exit width height rnd grid (k + 1)
         else Some (Inr ((exitX, exitY), k + 1))) = Some y"
  show "exit_found width height rnd grid k y"
  proof (cases "read_cell grid (width - 2) (random_floor rnd k (height - 2) + 1)")
    case (Inl e)
    with body show ?thesis by (auto simp: Let_def exit_found_def)
  next
    case (Inr c)
    show ?thesis
    proof (cases "c = Wall")
      case True
      with Inr body have "find_exit width height rnd grid (k + 1) = Some y"
        by (simp add: Let_def)
      from IH[OF this] show ?thesis by (rule exit_found_later)
    next
      case False
      with Inr body show ?thesis by (auto simp: Let_def exit_found_def)
    qed
  qed
qed

lemma random_floor_range: "0 < n \<Longrightarrow> 0 \<le> random_floor rnd k n \<and> random_floor rnd k n < n"
proof -
  assume n: "0 < n"
  then have "rnd k mod nat n < nat n" by simp
  then have "int (rnd k mod nat n) < n" using n by linarith
  with n show ?thesis by (simp add: random_floor_def)
qed

text \<open>
  C1: in every maze that \<open>generateMaze\<close> returns for an odd width and height of
  at least 5, the cells that are not walls are one region connected to the start
  cell \<open>(1, 1)\<close> through adjacent cells that are not walls, the exit is one of
  them and carries the exit mark, and the region has no cycle: its pairs of
  adjacent cells number one less than its cells.
\<close>

theorem generated_maze_is_a_tree:
  assumes "odd w" and "odd h" and "5 \<le> w" and "5 \<le> h"
    and gen: "generateMaze w h rnd k s = Some (Inr (g, k'), s')"
  shows "(1, 1) \<in> open_cells g
       \<and> region (open_cells g) = open_cells g
       \<and> (\<exists>e. exit s' = Some e \<and> e \<in> open_cells g \<and> read_cell g (fst e) (snd e) = Inr Exit)
       \<and> card (edges (open_cells g)) + 1 = card (open_cells g)"
proof -
  from gen obtain g0 where g0: "new_grid w h = Inr g0"
    by (auto simp: generateMaze_def split: sum.splits)
  from gen g0 obtain g1 where g1: "write_cell g0 1 1 Open = Inr g1"
    by (auto simp: generateMaze_def split: sum.splits)
  from gen g0 g1 obtain g2 k2 where g2: "carve w h rnd g1 [(1, 1)] k = Inr (g2, k2)"
    by (auto simp: generateMaze_def split: sum.splits)
  from gen g0 g1 g2 obtain e k3 where fe: "find_exit w h rnd g2 k2 = Some (Inr (e, k3))"
    by (auto simp: generateMaze_def split: sum.splits option.splits)
  obtain ex ey where e: "e = (ex, ey)" by (cases e)
  from gen g0 g1 g2 fe e obtain g3 where g3: "write_cell g2 ex ey Exit = Inr g3"
    by (auto simp: generateMaze_def Let_def split: sum.splits)
  from gen g0 g1 g2 fe e g3 have g4: "write_cell g3 1 1 Open = Inr g"
    and s': "exit s' = Some (ex, ey)"
    by (auto simp: generateMaze_def Let_def split: sum.splits)
  have inv: "carve_inv w h g2 []"
    using carve_preserves_inv[OF carve_inv_start[OF g0 g1] g2] assms(3,4) by simp
  then have ok: "grid_ok w h g2" and t: "tree_inv w h (open_cells g2)"
    by (simp_all add: carve_inv_def)
  from find_exit_result[OF fe] e obtain c where ex: "ex = w - 2"
    and ey: "ey = random_floor rnd (k3 - 1) (h - 2) + 1"
    and c: "read_cell g2 ex ey = Inr c" "c \<noteq> Wall"
    by (auto simp: exit_found_def)
  have eyr: "0 \<le> ey" "ey < h" using random_floor_range[of "h - 2" rnd "k3 - 1"] assms(4) ey by auto
  from grid_ok_read[OF ok _ _ eyr, of ex] c ex assms(3) have "read_cell g2 ex ey = Inr Open"
    by auto
  then have eo: "(ex, ey) \<in> open_cells g2" by (simp add: open_cells_def is_open_def)
  have o3: "open_cells g3 = open_cells g2"
    using open_cells_write[OF g3] ex assms(3) eo by auto
  have st: "(1, 1) \<in> open_cells g2" using t by (simp add: tree_inv_def)
  have o: "open_cells g = open_cells g2"
    using open_cells_write[OF g4] o3 st by auto
  have "(ex, ey) \<noteq> (1, 1)" using ex assms(3) by simp
  then have "read_cell g ex ey = read_cell g3 ex ey"
    using read_write_other[OF g4, of ex ey] by simp
  also have "\<dots> = Inr Exit" using read_write_same[OF g3] ex assms(3) by simp
  finally have re: "read_cell g ex ey = Inr Exit" .
  have "region (open_cells g2) = open_cells g2"
    using t region_subset[of "open_cells g2"] by (auto simp: tree_inv_def)
  with st eo re s' tree_inv_edges[OF t] show ?thesis
    unfolding o by simp
qed

lemma demo_5x5:
  "generateMaze 5 5 rnd_zero 0 blank_game =
     Some (Inr ([[Wall, Wall, Wall, Wall, Wall],
                 [Wall, Open, Open, Exit, Wall],
                 [Wall, Wall, Wall, Open, Wall],
                 [Wall, Open, Open, Open, Wall],
                 [Wall, Wall, Wall, Wall, Wall]], 4),
           blank_game\<lparr>exit := Some (3, 1), player := (1, 1), path := [(1, 1)]\<rparr>)"
  by code_simp

theorem generated_maze_is_a_tree_witness:
  "odd (5::int) \<and> (5::int) \<le> 5
   \<and> generateMaze 5 5 rnd_zero 0 blank_game =
       Some (Inr ([[Wall, Wall, Wall, Wall, Wall],
                   [Wall, Open, Open, Exit, Wall],
                   [Wall, Wall, Wall, Open, Wall],
                   [Wall, Open, Open, Open, Wall],
                   [Wall, Wall, Wall, Wall, Wall]], 4),
             blank_game\<lparr>exit := Some (3, 1), player := (1, 1), path := [(1, 1)]\<rparr>)
   \<and> card (edges (open_cells [[Wall, Wall, Wall, Wall, Wall],
                   [Wall, Open, Open, Exit, Wall],
                   [Wall, Wall, Wall, Open, Wall],
                   [Wall, Open, Open, Open, Wall],
                   [Wall, Wall, Wall, Wall, Wall]])) + 1
       = card (open_cells [[Wall, Wall, Wall, Wall, Wall],
                   [Wall, Open, Open, Exit, Wall],
                   [Wall, Wall, Wall, Open, Wall],
                   [Wall, Open, Open, Open, Wall],
                   [Wall, Wall, Wall, Wall, Wall]])"
  using generated_maze_is_a_tree[OF _ _ _ _ demo_5x5] demo_5x5
  by simp

lemma write_cell_length: "write_cell g x y v = Inr g' \<Longrightarrow> length g' = length g"
  by (auto simp: write_cell_def split: if_splits)

lemma carve_step_length:
  "carve_step w h rnd g c rest k = Inr (g', st', k') \<Longrightarrow> length g' = length g"
  by (drule carve_step_cases) (auto dest!: write_cell_length)

lemma carve_length: "carve w h rnd g stack k = Inr (g', k') \<Longrightarrow> length g' = length g"
proof (induction w h rnd g stack k rule: carve.induct)
  case (1 width height rnd grid k)
  then show ?case by simp
next
  case (2 width height rnd grid cur rest k)
  from "2.prems" obtain g1 st1 k1
    where step: "carve_step width height rnd grid cur rest k = Inr (g1, st1, k1)"
      and rec: "carve width height rnd g1 st1 k1 = Inr (g', k')"
    by (auto split: sum.splits prod.splits)
  from "2.IH"[OF step refl refl rec] carve_step_length[OF step] show ?case by simp
qed

lemma neighbors_small: "w \<le> 2 \<or> h \<le> 2 \<Longrightarrow> neighbors w h g x y ds = Inr []"
  by (induction ds) (auto simp: Let_def)

lemma carve_small: "w \<le> 2 \<or> h \<le> 2 \<Longrightarrow> carve w h rnd g stack k = Inr (g, k)"
  by (induction stack) (auto simp: carve_step_def neighbors_small)

lemma neighbors_ok: "grid_ok w h g \<Longrightarrow> \<exists>ns. neighbors w h g x y ds = Inr ns"
proof (induction ds)
  case Nil
  then show ?case by simp
next
  case (Cons d ds)
  obtain dx dy where d: "d = (dx, dy)" by (cases d)
  from Cons obtain ns where ns: "neighbors w h g x y ds = Inr ns" by auto
  show ?case
  proof (cases "x + dx > 0 \<and> x + dx < w - 1 \<and> y + dy > 0 \<and> y + dy < h - 1")
    case True
    then have "read_cell g (x + dx) (y + dy) = Inr Wall \<or> read_cell g (x + dx) (y + dy) = Inr Open"
      using grid_ok_read[OF Cons.prems, of "x + dx" "y + dy"] by simp
    with True ns d show ?thesis by (auto simp: Let_def)
  next
    case False
    with ns d show ?thesis by (auto simp: Let_def)
  qed
qed

lemma carve_step_ok:
  assumes "carve_inv w h g (c # rest)"
  shows "\<exists>r. carve_step w h rnd g c rest k = Inr r"
proof -
  from assms have ok: "grid_ok w h g" and t: "tree_inv w h (open_cells g)"
    and c: "c \<in> open_cells g" by (auto simp: carve_inv_def)
  obtain x y where cxy: "c = (x, y)" by (cases c)
  from t c cxy have cin: "0 < x" "x < w - 1" "0 < y" "y < h - 1" by (auto simp: tree_inv_def)
  from neighbors_ok[OF ok] obtain ns where ns: "neighbors w h g x y directions = Inr ns" by blast
  show ?thesis
  proof (cases "length ns > 0")
    case False
    with cxy ns show ?thesis by (simp add: carve_step_def)
  next
    case True
    obtain nx ny dx dy
      where pick: "ns ! nat (random_floor rnd k (int (length ns))) = (nx, ny, dx, dy)"
      by (metis prod_cases4)
    have "(nx, ny, dx, dy) \<in> set ns"
      using random_floor_less[OF True, of rnd k] pick by (metis nth_mem)
    from neighbors_mem[OF ns this]
    have d: "(dx, dy) \<in> set directions" and n: "nx = x + dx" "ny = y + dy"
      and i: "0 < nx" "nx < w - 1" "0 < ny" "ny < h - 1" by auto
    have p: "0 \<le> x + dx div 2" "x + dx div 2 < w" "0 \<le> y + dy div 2" "y + dy div 2 < h"
      using cin i n d by (auto simp: directions_def)
    from grid_ok_write[OF ok p] obtain g1
      where g1: "write_cell g (x + dx div 2) (y + dy div 2) Open = Inr g1" "grid_ok w h g1"
      by blast
    from grid_ok_write[OF g1(2), of nx ny] i obtain g2
      where g2: "write_cell g1 nx ny Open = Inr g2" by auto
    from cxy ns True pick g1(1) g2 show ?thesis by (simp add: carve_step_def)
  qed
qed

lemma carve_returns:
  "carve_inv w h g stack \<Longrightarrow> \<exists>g' k'. carve w h rnd g stack k = Inr (g', k')"
proof (induction w h rnd g stack k rule: carve.induct)
  case (1 width height rnd grid k)
  then show ?case by simp
next
  case (2 width height rnd grid cur rest k)
  from carve_step_ok[OF "2.prems"] obtain g1 st1 k1
    where step: "carve_step width height rnd grid cur rest k = Inr (g1, st1, k1)"
    by (metis prod_cases3)
  from carve_step_inv[OF "2.prems" step] have "carve_inv width height g1 st1" .
  from "2.IH"[OF step refl refl this] step show ?case by simp
qed

lemma find_exit_none:
  assumes "\<forall>j\<ge>k. read_cell g (w - 2) (random_floor rnd j (h - 2) + 1) = Inr Wall"
  shows "find_exit w h rnd g k = None"
proof (rule ccontr)
  assume "find_exit w h rnd g k \<noteq> None"
  then obtain r where "find_exit w h rnd g k = Some r" by auto
  from find_exit_result[OF this] assms show False
    by (cases r) (auto simp: exit_found_def)
qed

lemma find_exit_some:
  assumes "k \<le> j" "read_cell g (w - 2) (random_floor rnd j (h - 2) + 1) \<noteq> Inr Wall"
  shows "\<exists>r. find_exit w h rnd g k = Some r"
  using assms
proof (induction "j - k" arbitrary: k)
  case 0
  then have "k = j" by simp
  with "0.prems"(2) show ?case
    by (subst find_exit.simps) (auto simp: Let_def split: sum.splits)
next
  case (Suc d)
  then have "d = j - (k + 1)" "k + 1 \<le> j" by auto
  from Suc.hyps(1)[OF this Suc.prems(2)] obtain r
    where "find_exit w h rnd g (k + 1) = Some r" by blast
  then show ?case
    by (subst find_exit.simps) (auto simp: Let_def split: sum.splits)
qed

lemma exit_row_exists:
  assumes "2 \<le> h" "int (length g) = h"
  shows "\<exists>c. read_cell g x (random_floor rnd j (h - 2) + 1) = Inr c"
proof (cases "h = 2")
  case True
  with assms show ?thesis by (simp add: random_floor_def read_cell_def)
next
  case False
  with assms(1) have "0 < h - 2" by simp
  from random_floor_range[OF this, of rnd j] assms(2) show ?thesis
    by (simp add: read_cell_def)
qed

text \<open>
  C2, amended: for every width from 0 and height from 2 that \<open>Array\<close> accepts, the
  carving loop ends with an empty stack and without an error, whatever the
  random choices. The search for the exit has no cap: \<open>generateMaze\<close> returns a
  maze exactly when some draw from then on selects a row whose cell in column
  \<open>width - 2\<close> is not a wall, and never returns otherwise.
\<close>

theorem exit_search_not_capped:
  assumes "0 \<le> w" and "w \<le> 4294967295" and "2 \<le> h" and "h \<le> 4294967295"
  shows "\<exists>g0 g1 g2 k2.
           new_grid w h = Inr g0 \<and> write_cell g0 1 1 Open = Inr g1
         \<and> carve w h rnd g1 [(1, 1)] k = Inr (g2, k2)
         \<and> (if \<exists>j\<ge>k2. read_cell g2 (w - 2) (random_floor rnd j (h - 2) + 1) \<noteq> Inr Wall
            then \<exists>g k' s'. generateMaze w h rnd k s = Some (Inr (g, k'), s')
            else generateMaze w h rnd k s = None)"
proof -
  let ?g0 = "replicate (nat h) (replicate (nat w) Wall)"
  have g0: "new_grid w h = Inr ?g0" using assms by (simp add: new_grid_def)
  obtain g1 where g1: "write_cell ?g0 1 1 Open = Inr g1" using assms(3)
    by (simp add: write_cell_def)
  have "\<exists>g2 k2. carve w h rnd g1 [(1, 1)] k = Inr (g2, k2)"
  proof (cases "w \<le> 2 \<or> h \<le> 2")
    case True
    then show ?thesis using carve_small by blast
  next
    case False
    then have "carve_inv w h g1 [(1, 1)]" using carve_inv_start[OF g0 g1] by simp
    then show ?thesis by (rule carve_returns)
  qed
  then obtain g2 k2 where g2: "carve w h rnd g1 [(1, 1)] k = Inr (g2, k2)" by blast
  have len: "int (length g2) = h"
    using carve_length[OF g2] write_cell_length[OF g1] assms(3) by simp
  let ?hit = "\<exists>j\<ge>k2. read_cell g2 (w - 2) (random_floor rnd j (h - 2) + 1) \<noteq> Inr Wall"
  have "if ?hit then \<exists>g k' s'. generateMaze w h rnd k s = Some (Inr (g, k'), s')
        else generateMaze w h rnd k s = None"
  proof (cases ?hit)
    case True
    then obtain j where "k2 \<le> j"
      "read_cell g2 (w - 2) (random_floor rnd j (h - 2) + 1) \<noteq> Inr Wall" by blast
    from find_exit_some[OF this] obtain r where r: "find_exit w h rnd g2 k2 = Some r" by blast
    have noerr: "read_cell g2 (w - 2) (random_floor rnd i (h - 2) + 1) \<noteq> Inl e" for i e
      using exit_row_exists[OF assms(3) len, of "w - 2" rnd i] by auto
    from find_exit_result[OF r] noerr
    obtain e k3 where rr: "r = Inr (e, k3)"
      and ey: "snd e = random_floor rnd (k3 - 1) (h - 2) + 1"
      by (cases r) (auto simp: exit_found_def)
    from exit_row_exists[OF assms(3) len, of "fst e" rnd "k3 - 1"] ey
    have "0 \<le> snd e \<and> snd e < int (length g2)"
      by (auto simp: read_cell_def split: if_splits)
    then obtain g3 where g3: "write_cell g2 (fst e) (snd e) Exit = Inr g3"
      by (simp add: write_cell_def)
    have "1 < int (length g3)" using write_cell_length[OF g3] len assms(3) by simp
    then obtain g4 where g4: "write_cell g3 1 1 Open = Inr g4"
      by (simp add: write_cell_def)
    have "generateMaze w h rnd k s
            = Some (Inr (g4, k3), s\<lparr>exit := Some e, player := (1, 1), path := [(1, 1)]\<rparr>)"
      using g0 g1 g2 r rr g3 g4 by (cases e) (simp add: generateMaze_def)
    with True show ?thesis by auto
  next
    case False
    then have "find_exit w h rnd g2 k2 = None" by (intro find_exit_none) auto
    with False g0 g1 g2 show ?thesis by (simp add: generateMaze_def)
  qed
  with g0 g1 g2 show ?thesis by blast
qed

lemma generateMaze_stuck:
  assumes "carved w h rnd k = Inr (g2, k2)"
    and "\<forall>j\<ge>k2. read_cell g2 (w - 2) (random_floor rnd j (h - 2) + 1) = Inr Wall"
  shows "generateMaze w h rnd k s = None"
  using assms(1) find_exit_none[OF assms(2)]
  by (auto simp: carved_def generateMaze_def split: sum.splits)

lemma carved_4x4:
  "carved 4 4 rnd_zero 0 =
     Inr ([[Wall, Wall, Wall, Wall],
           [Wall, Open, Wall, Wall],
           [Wall, Wall, Wall, Wall],
           [Wall, Wall, Wall, Wall]], 0)"
  by code_simp

lemma carved_7x7:
  "carved 7 7 rnd_stuck 0 =
     Inr ([[Wall, Wall, Wall, Wall, Wall, Wall, Wall],
           [Wall, Open, Wall, Open, Open, Open, Wall],
           [Wall, Open, Wall, Open, Wall, Wall, Wall],
           [Wall, Open, Wall, Open, Open, Open, Wall],
           [Wall, Open, Wall, Wall, Wall, Open, Wall],
           [Wall, Open, Open, Open, Open, Open, Wall],
           [Wall, Wall, Wall, Wall, Wall, Wall, Wall]], 8)"
  by code_simp

text \<open>
  C2, as stated, fails: on a 4 by 4 grid column 2 holds only walls and the search
  never ends, and on a 7 by 7 grid it never ends for a sequence of draws that
  keeps selecting the walled row 2.
\<close>

theorem exit_search_counterexample:
  "generateMaze 4 4 rnd_zero 0 blank_game = None
   \<and> generateMaze 7 7 rnd_stuck 0 blank_game = None"
proof
  show "generateMaze 4 4 rnd_zero 0 blank_game = None"
    by (rule generateMaze_stuck[OF carved_4x4])
       (simp add: random_floor_def rnd_zero_def read_cell_def row_get_def)
  show "generateMaze 7 7 rnd_stuck 0 blank_game = None"
    by (rule generateMaze_stuck[OF carved_7x7])
       (simp add: random_floor_def rnd_stuck_def read_cell_def row_get_def)
qed

text \<open>On a 3 by 3 grid nothing is carved and the first draw finds the exit on the start cell.\<close>

lemma generateMaze_3x3:
  "generateMaze 3 3 rnd k s =
     Some (Inr ([[Wall, Wall, Wall], [Wall, Open, Wall], [Wall, Wall, Wall]], k + 1),
           s\<lparr>exit := Some (1, 1), player := (1, 1), path := [(1, 1)]\<rparr>)"
proof -
  have g0: "new_grid 3 3 = Inr [[Wall, Wall, Wall], [Wall, Wall, Wall], [Wall, Wall, Wall]]"
    by (simp add: new_grid_def numeral_3_eq_3)
  have g1: "write_cell [[Wall, Wall, Wall], [Wall, Wall, Wall], [Wall, Wall, Wall]] 1 1 Open
              = Inr [[Wall, Wall, Wall], [Wall, Open, Wall], [Wall, Wall, Wall]]"
    by (simp add: write_cell_def row_set_def)
  have c: "carve 3 3 rnd [[Wall, Wall, Wall], [Wall, Open, Wall], [Wall, Wall, Wall]] [(1, 1)] k
             = Inr ([[Wall, Wall, Wall], [Wall, Open, Wall], [Wall, Wall, Wall]], k)"
    by (simp add: carve_step_def directions_def)
  have f: "find_exit 3 3 rnd [[Wall, Wall, Wall], [Wall, Open, Wall], [Wall, Wall, Wall]] k
             = Some (Inr ((1, 1), k + 1))"
    by (subst find_exit.simps) (simp add: random_floor_def read_cell_def row_get_def)
  show ?thesis
    by (simp add: generateMaze_def g0 g1 c f write_cell_def row_set_def del: carve.simps)
qed

theorem exit_search_not_capped_witness:
  "(0::int) \<le> 3 \<and> (3::int) \<le> 4294967295 \<and> (2::int) \<le> 3
   \<and> carve 3 3 rnd_zero [[Wall, Wall, Wall], [Wall, Open, Wall], [Wall, Wall, Wall]] [(1, 1)] 0
       = Inr ([[Wall, Wall, Wall], [Wall, Open, Wall], [Wall, Wall, Wall]], 0)
   \<and> read_cell [[Wall, Wall, Wall], [Wall, Open, Wall], [Wall, Wall, Wall]] (3 - 2)
        (random_floor rnd_zero 0 (3 - 2) + 1) = Inr Open
   \<and> (\<exists>g k' s'. generateMaze 3 3 rnd_zero 0 blank_game = Some (Inr (g, k'), s'))"
proof -
  let ?G = "[[Wall, Wall, Wall], [Wall, Open, Wall], [Wall, Wall, Wall]]"
  from exit_search_not_capped[of 3 3 rnd_zero 0 blank_game]
  obtain g0 g1 g2 k2 where g0: "new_grid 3 3 = Inr g0"
    and g1: "write_cell g0 1 1 Open = Inr g1"
    and g2: "carve 3 3 rnd_zero g1 [(1, 1)] 0 = Inr (g2, k2)"
    and r: "if \<exists>j\<ge>k2. read_cell g2 (3 - 2) (random_floor rnd_zero j (3 - 2) + 1) \<noteq> Inr Wall
            then \<exists>g k' s'. generateMaze 3 3 rnd_zero 0 blank_game = Some (Inr (g, k'), s')
            else generateMaze 3 3 rnd_zero 0 blank_game = None"
    by auto
  from g0 have "g0 = [[Wall, Wall, Wall], [Wall, Wall, Wall], [Wall, Wall, Wall]]"
    by (simp add: new_grid_def numeral_3_eq_3)
  with g1 have e1: "g1 = ?G" by (simp add: write_cell_def row_set_def)
  have c: "carve 3 3 rnd_zero ?G [(1, 1)] 0 = Inr (?G, 0)"
    by (simp add: carve_step_def directions_def)
  with g2 e1 have e2: "g2 = ?G" "k2 = 0" by simp_all
  have h: "read_cell ?G (3 - 2) (random_floor rnd_zero 0 (3 - 2) + 1) = Inr Open"
    by (simp add: random_floor_def read_cell_def row_get_def)
  then have "\<exists>j\<ge>k2. read_cell g2 (3 - 2) (random_floor rnd_zero j (3 - 2) + 1) \<noteq> Inr Wall"
    unfolding e2 by (intro exI[of _ 0]) simp
  with r have "\<exists>g k' s'. generateMaze 3 3 rnd_zero 0 blank_game = Some (Inr (g, k'), s')"
    by simp
  with c h show ?thesis by simp
qed

subsection \<open>The rows that end the search for the exit\<close>

lemma neighbors_nil:
  "neighbors w h g x y ds = Inr [] \<Longrightarrow> (dx, dy) \<in> set ds \<Longrightarrow> inside w h (x + dx, y + dy) \<Longrightarrow>
     read_cell g (x + dx) (y + dy) \<noteq> Inr Wall"
  by (induction ds) (auto simp: Let_def inside_def split: if_splits sum.splits)

lemma carve_step_pop:
  assumes "carve_step w h rnd g c rest k = Inr (g', st', k')" "length st' \<le> length rest"
  shows "neighbors w h g (fst c) (snd c) directions = Inr [] \<and> g' = g \<and> st' = rest"
proof -
  obtain x y where c: "c = (x, y)" by (cases c)
  from assms c obtain ns where ns: "neighbors w h g x y directions = Inr ns"
    by (auto simp: carve_step_def split: sum.splits)
  show ?thesis
  proof (cases "length ns > 0")
    case False
    with assms c ns show ?thesis by (simp add: carve_step_def)
  next
    case True
    with assms c ns show ?thesis
      by (auto simp: carve_step_def split: sum.splits prod.splits)
  qed
qed

lemma carve_step_explored:
  assumes inv: "carve_inv w h g (c # rest)" and ex: "explored w h g (c # rest)"
    and step: "carve_step w h rnd g c rest k = Inr (g', st', k')"
  shows "explored w h g' st'"
proof -
  from inv have ok: "grid_ok w h g" by (simp add: carve_inv_def)
  from carve_step_cases[OF step] show ?thesis
  proof (elim disjE exE conjE)
    assume e: "g' = g" "st' = rest" "k' = k"
    with step have nil: "neighbors w h g (fst c) (snd c) directions = Inr []"
      using carve_step_pop[OF step] by simp
    have "(fst c + fst d, snd c + snd d) \<in> open_cells g"
      if d: "d \<in> set directions" and i: "inside w h (fst c + fst d, snd c + snd d)" for d
    proof -
      from neighbors_nil[OF nil, of "fst d" "snd d"] d i
      have "read_cell g (fst c + fst d) (snd c + snd d) \<noteq> Inr Wall" by simp
      moreover from i have "read_cell g (fst c + fst d) (snd c + snd d) = Inr Wall
          \<or> read_cell g (fst c + fst d) (snd c + snd d) = Inr Open"
        by (intro grid_ok_read[OF ok]) (auto simp: inside_def)
      ultimately show ?thesis by (simp add: open_cells_def is_open_def)
    qed
    with ex e show ?thesis by (auto simp: explored_def)
  next
    fix dx dy g1
    assume d: "(dx, dy) \<in> set directions"
      and i: "0 < fst c + dx" "fst c + dx < w - 1" "0 < snd c + dy" "snd c + dy < h - 1"
      and g1: "write_cell g (fst c + dx div 2) (snd c + dy div 2) Open = Inr g1"
      and g': "write_cell g1 (fst c + dx) (snd c + dy) Open = Inr g'"
      and st': "st' = (fst c + dx, snd c + dy) # c # rest"
    let ?p = "(fst c + dx div 2, snd c + dy div 2)" and ?n = "(fst c + dx, snd c + dy)"
    from inv have t: "tree_inv w h (open_cells g)" and c: "c \<in> open_cells g" "room c"
      by (auto simp: carve_inv_def)
    from t c(1) have cin: "0 < fst c" by (auto simp: tree_inv_def)
    have px: "0 \<le> fst c + dx div 2" using cin i d by (auto simp: directions_def)
    have o': "open_cells g' = insert ?n (insert ?p (open_cells g))"
      using open_cells_write[OF g'] open_cells_write[OF g1 px] i(1) by simp
    have np: "\<not> room ?p" using between_neighbours(7)[OF c(2) d refl refl] .
    show ?thesis
      unfolding explored_def o' st' using ex np by (auto simp: explored_def)
  qed
qed

lemma carve_explores:
  "carve_inv w h g stack \<Longrightarrow> explored w h g stack \<Longrightarrow>
     carve w h rnd g stack k = Inr (g', k') \<Longrightarrow> explored w h g' []"
proof (induction w h rnd g stack k rule: carve.induct)
  case (1 width height rnd grid k)
  then show ?case by simp
next
  case (2 width height rnd grid cur rest k)
  from "2.prems"(3) obtain g1 st1 k1
    where step: "carve_step width height rnd grid cur rest k = Inr (g1, st1, k1)"
      and rec: "carve width height rnd g1 st1 k1 = Inr (g', k')"
    by (auto split: sum.splits prod.splits)
  from "2.IH"[OF step refl refl carve_step_inv[OF "2.prems"(1) step]
      carve_step_explored[OF "2.prems"(1,2) step] rec]
  show ?case .
qed

lemma exploredD:
  assumes "explored w h g []" "c \<in> open_cells g" "room c" "(dx, dy) \<in> set directions"
    "inside w h (fst c + dx, snd c + dy)"
  shows "(fst c + dx, snd c + dy) \<in> open_cells g"
proof -
  from assms(1,2,3) have "\<forall>d \<in> set directions.
           inside w h (fst c + fst d, snd c + snd d) \<longrightarrow>
             (fst c + fst d, snd c + snd d) \<in> open_cells g"
    by (simp add: explored_def)
  from bspec[OF this assms(4)] assms(5) show ?thesis by simp
qed

lemma explored_rooms_row:
  assumes e: "explored w h g []" and s: "(1, 1) \<in> open_cells g"
  shows "inside w h (1 + 2 * int i, 1) \<Longrightarrow> (1 + 2 * int i, 1) \<in> open_cells g"
proof (induction i)
  case 0
  with s show ?case by simp
next
  case (Suc i)
  then have "inside w h (1 + 2 * int i, 1)" by (auto simp: inside_def)
  with Suc.IH have o: "(1 + 2 * int i, 1) \<in> open_cells g" by simp
  have r: "room (1 + 2 * int i, 1)" by (simp add: room_def)
  have d: "(2, 0) \<in> set directions" by (simp add: directions_def)
  from exploredD[OF e o r d] Suc.prems show ?case
    by (simp add: algebra_simps)
qed

lemma explored_rooms:
  assumes e: "explored w h g []" and s: "(1, 1) \<in> open_cells g"
  shows "inside w h (1 + 2 * int i, 1 + 2 * int j) \<Longrightarrow> (1 + 2 * int i, 1 + 2 * int j) \<in> open_cells g"
proof (induction j)
  case 0
  with explored_rooms_row[OF e s, of i] show ?case by simp
next
  case (Suc j)
  then have "inside w h (1 + 2 * int i, 1 + 2 * int j)" by (auto simp: inside_def)
  with Suc.IH have o: "(1 + 2 * int i, 1 + 2 * int j) \<in> open_cells g" by simp
  have r: "room (1 + 2 * int i, 1 + 2 * int j)" by (simp add: room_def)
  have d: "(0, 2) \<in> set directions" by (simp add: directions_def)
  from exploredD[OF e o r d] Suc.prems show ?case
    by (simp add: algebra_simps)
qed

lemma carved_parts:
  assumes "carved w h rnd k = Inr (g2, k2)"
  obtains g0 g1 where "new_grid w h = Inr g0" "write_cell g0 1 1 Open = Inr g1"
    "carve w h rnd g1 [(1, 1)] k = Inr (g2, k2)"
  using assms by (auto simp: carved_def split: sum.splits)

lemma carved_returns:
  assumes "0 \<le> w" "w \<le> 4294967295" "2 \<le> h" "h \<le> 4294967295"
  shows "\<exists>g2 k2. carved w h rnd k = Inr (g2, k2)"
proof -
  let ?g0 = "replicate (nat h) (replicate (nat w) Wall)"
  have g0: "new_grid w h = Inr ?g0" using assms by (simp add: new_grid_def)
  obtain g1 where g1: "write_cell ?g0 1 1 Open = Inr g1" using assms(3)
    by (simp add: write_cell_def)
  have "\<exists>g2 k2. carve w h rnd g1 [(1, 1)] k = Inr (g2, k2)"
  proof (cases "w \<le> 2 \<or> h \<le> 2")
    case True
    then show ?thesis using carve_small by blast
  next
    case False
    then have "carve_inv w h g1 [(1, 1)]" using carve_inv_start[OF g0 g1] by simp
    then show ?thesis by (rule carve_returns)
  qed
  with g0 g1 show ?thesis by (simp add: carved_def)
qed

text \<open>
  When the carving loop ends every room inside the border is open: the loop
  leaves a room only when none of its neighbours is a wall.
\<close>

lemma carved_rooms_open:
  assumes "3 \<le> w" "3 \<le> h" and c: "carved w h rnd k = Inr (g2, k2)"
    and xy: "odd x" "odd y" "inside w h (x, y)"
  shows "read_cell g2 x y = Inr Open"
proof -
  from c obtain g0 g1 where g0: "new_grid w h = Inr g0"
    and g1: "write_cell g0 1 1 Open = Inr g1"
    and g2: "carve w h rnd g1 [(1, 1)] k = Inr (g2, k2)"
    by (rule carved_parts)
  have inv1: "carve_inv w h g1 [(1, 1)]" using carve_inv_start[OF g0 g1 assms(1,2)] .
  have "open_cells g0 = {}" using read_cell_new_grid[OF g0]
    by (auto simp: open_cells_def is_open_def)
  with open_cells_write[OF g1] have "open_cells g1 = {(1, 1)}" by simp
  then have ex1: "explored w h g1 [(1, 1)]" by (simp add: explored_def)
  have inv: "carve_inv w h g2 []" using carve_preserves_inv[OF inv1 g2] .
  have ex: "explored w h g2 []" using carve_explores[OF inv1 ex1 g2] .
  from inv have st: "(1, 1) \<in> open_cells g2" and ok: "grid_ok w h g2"
    by (simp_all add: carve_inv_def tree_inv_def)
  from xy(1) obtain a where a: "x = 2 * a + 1" by (rule oddE)
  from xy(2) obtain b where b: "y = 2 * b + 1" by (rule oddE)
  from a b xy(3) have "0 \<le> a" "0 \<le> b" by (auto simp: inside_def)
  then have "x = 1 + 2 * int (nat a)" "y = 1 + 2 * int (nat b)" using a b by simp_all
  with explored_rooms[OF ex st, of "nat a" "nat b"] xy(3)
  have "(x, y) \<in> open_cells g2" by metis
  moreover from xy(3) have "read_cell g2 x y = Inr Wall \<or> read_cell g2 x y = Inr Open"
    by (intro grid_ok_read[OF ok]) (auto simp: inside_def)
  ultimately show ?thesis by (auto simp: open_cells_def is_open_def)
qed

text \<open>
  For an odd width the exit column \<open>width - 2\<close> holds rooms, and row 1 is always
  a row that ends the search for the exit.
\<close>

lemma odd_width_row_one_open:
  assumes "odd w" "3 \<le> w" "3 \<le> h" "carved w h rnd k = Inr (g2, k2)"
  shows "read_cell g2 (w - 2) 1 = Inr Open"
  using assms by (intro carved_rooms_open[OF assms(2,3,4)]) (auto simp: inside_def)

text \<open>
  For an even width the exit column holds walls only: a cell there could only be
  opened on the way to the border column, which is never carved. The search for
  the exit then never ends, whatever the draws.
\<close>

lemma even_width_column_walls:
  assumes "even w" "2 \<le> w" "2 \<le> h" and c: "carved w h rnd k = Inr (g2, k2)"
    and y: "0 \<le> y" "y < h"
  shows "read_cell g2 (w - 2) y = Inr Wall"
proof -
  from c obtain g0 g1 where g0: "new_grid w h = Inr g0"
    and g1: "write_cell g0 1 1 Open = Inr g1"
    and g2: "carve w h rnd g1 [(1, 1)] k = Inr (g2, k2)"
    by (rule carved_parts)
  have ok0: "grid_ok w h g0" using grid_ok_new_grid[OF g0] assms(3) by simp
  show ?thesis
  proof (cases "w \<le> 2 \<or> h \<le> 2")
    case True
    then have "g2 = g1" using g2 carve_small[of w h rnd g1 "[(1, 1)]" k] by simp
    moreover have "(w - 2, y) \<noteq> (1, 1)" using assms(1) by auto
    ultimately have "read_cell g2 (w - 2) y = read_cell g0 (w - 2) y"
      using read_write_other[OF g1] by simp
    moreover have "read_cell g0 (w - 2) y = Inr Wall \<or> read_cell g0 (w - 2) y = Inr Open"
      using assms(2) y by (intro grid_ok_read[OF ok0]) auto
    ultimately show ?thesis using read_cell_new_grid[OF g0, of "w - 2" y] by auto
  next
    case False
    then have "carve_inv w h g1 [(1, 1)]" using carve_inv_start[OF g0 g1] by simp
    from carve_preserves_inv[OF this g2]
    have ok: "grid_ok w h g2" and t: "tree_inv w h (open_cells g2)"
      by (simp_all add: carve_inv_def)
    have "(w - 2, y) \<notin> open_cells g2"
    proof
      assume o: "(w - 2, y) \<in> open_cells g2"
      with t assms(1) have "odd y" by (auto simp: tree_inv_def)
      with assms(1) have "room (w - 1, y)" by (simp add: room_def)
      moreover have "adjacent (w - 2, y) (w - 1, y)" by (simp add: adjacent_def)
      ultimately have "(w - 1, y) \<in> open_cells g2" using t o by (auto simp: tree_inv_def)
      with t show False by (auto simp: tree_inv_def)
    qed
    moreover have "read_cell g2 (w - 2) y = Inr Wall \<or> read_cell g2 (w - 2) y = Inr Open"
      using assms(2) y by (intro grid_ok_read[OF ok]) auto
    ultimately show ?thesis by (auto simp: open_cells_def is_open_def)
  qed
qed

lemma exit_row_range:
  assumes "2 \<le> h"
  shows "0 \<le> random_floor rnd j (h - 2) + 1 \<and> random_floor rnd j (h - 2) + 1 < h"
proof (cases "h = 2")
  case True
  then show ?thesis by (simp add: random_floor_def)
next
  case False
  with assms have "0 < h - 2" by simp
  from random_floor_range[OF this, of rnd j] show ?thesis by simp
qed

lemma even_width_never_returns:
  assumes "even w" "2 \<le> w" "w \<le> 4294967295" "2 \<le> h" "h \<le> 4294967295"
  shows "generateMaze w h rnd k s = None"
proof -
  from carved_returns[of w h rnd k] assms obtain g2 k2
    where c: "carved w h rnd k = Inr (g2, k2)" by auto
  show ?thesis
  proof (rule generateMaze_stuck[OF c], intro allI impI)
    fix j
    from exit_row_range[OF assms(4), of rnd j]
    show "read_cell g2 (w - 2) (random_floor rnd j (h - 2) + 1) = Inr Wall"
      by (intro even_width_column_walls[OF assms(1,2,4) c]) simp_all
  qed
qed

end
